theory Spec2Isabelle
  imports Complex_Main
begin

section \<open>Python strings\<close>

text \<open>
  A Python \<^verbatim>\<open>str\<close> is a sequence of Unicode code points; \<^verbatim>\<open>len\<close> counts code points
  and \<^verbatim>\<open>ord\<close> reads one. The program translates Hebrew pages, so code points above 255
  are ordinary input. A character is modelled by its code point, a string by the list of
  its code points; \<open>ascii\<close> reads an ASCII literal.
\<close>

type_synonym pchar = nat
type_synonym pstr = "pchar list"

definition ascii :: "string \<Rightarrow> pstr" where
  "ascii s = map of_char s"

definition LT :: pchar where "LT = 60"
definition GT :: pchar where "GT = 62"

text \<open>
  The characters that \<^verbatim>\<open>str.strip\<close>, \<^verbatim>\<open>str.split\<close> and the regular-expression class
  \<^verbatim>\<open>\s\<close> (on \<^verbatim>\<open>str\<close> patterns) treat as whitespace.
\<close>

definition isspace :: "pchar \<Rightarrow> bool" where
  "isspace c \<longleftrightarrow>
     (9 \<le> c \<and> c \<le> 13) \<or> (28 \<le> c \<and> c \<le> 32) \<or> c = 133 \<or> c = 160 \<or> c = 5760 \<or>
     (8192 \<le> c \<and> c \<le> 8202) \<or> c = 8232 \<or> c = 8233 \<or> c = 8239 \<or> c = 8287 \<or> c = 12288"

definition lstrip :: "pstr \<Rightarrow> pstr" where
  "lstrip s = dropWhile isspace s"

definition rstrip :: "pstr \<Rightarrow> pstr" where
  "rstrip s = rev (dropWhile isspace (rev s))"

definition strip :: "pstr \<Rightarrow> pstr" where
  "strip s = rstrip (lstrip s)"

definition startswith :: "pstr \<Rightarrow> pstr \<Rightarrow> bool" where
  "startswith s p \<longleftrightarrow> take (length p) s = p"

definition endswith :: "pstr \<Rightarrow> pstr \<Rightarrow> bool" where
  "endswith s p \<longleftrightarrow> length p \<le> length s \<and> drop (length s - length p) s = p"

text \<open>
  Slice bounds: \<^verbatim>\<open>s[a:b]\<close> for Python integers. A negative bound counts from the end,
  and a bound outside the sequence is clipped to it.
\<close>

definition clip :: "nat \<Rightarrow> int \<Rightarrow> nat" where
  "clip n k = (if k < 0 then nat (int n + k) else min n (nat k))"

definition slice_to :: "'a list \<Rightarrow> int \<Rightarrow> 'a list" where
  "slice_to s k = take (clip (length s) k) s"

definition slice_from :: "'a list \<Rightarrow> int \<Rightarrow> 'a list" where
  "slice_from s k = drop (clip (length s) k) s"

definition slice :: "'a list \<Rightarrow> int \<Rightarrow> int \<Rightarrow> 'a list" where
  "slice s a b = drop (clip (length s) a) (take (clip (length s) b) s)"

text \<open>
  \<^verbatim>\<open>s.find(sub, start, end)\<close> and \<^verbatim>\<open>s.rfind(sub, start)\<close>: the lowest (highest) index
  in the clipped range at which \<open>sub\<close> occurs entirely, or \<open>-1\<close>.
\<close>

definition occurs_at :: "pstr \<Rightarrow> pstr \<Rightarrow> nat \<Rightarrow> bool" where
  "occurs_at s sub i \<longleftrightarrow> take (length sub) (drop i s) = sub"

definition str_find :: "pstr \<Rightarrow> pstr \<Rightarrow> int \<Rightarrow> int \<Rightarrow> int" where
  "str_find s sub start stop =
     (case filter (\<lambda>i. i + length sub \<le> clip (length s) stop \<and> occurs_at s sub i)
             [clip (length s) start ..< Suc (clip (length s) stop)] of
        [] \<Rightarrow> - 1
      | i # _ \<Rightarrow> int i)"

definition str_rfind :: "pstr \<Rightarrow> pstr \<Rightarrow> int \<Rightarrow> int" where
  "str_rfind s sub start =
     (case rev (filter (\<lambda>i. i + length sub \<le> length s \<and> occurs_at s sub i)
             [clip (length s) start ..< Suc (length s)]) of
        [] \<Rightarrow> - 1
      | i # _ \<Rightarrow> int i)"

section \<open>Structure tokenizer (html_processor.extract_html_structure)\<close>

text \<open>
  \<^verbatim>\<open>re.compile(r'(<[^>]+>|[^<]+)').finditer(content)\<close>, scanning left to right. At a
  \<^verbatim>\<open><\<close> the first alternative matches when at least one character other than \<^verbatim>\<open>>\<close>
  follows and the run of such characters is closed by a \<^verbatim>\<open>>\<close>; otherwise neither
  alternative matches there and the scan moves one character on. At any other character
  the second alternative takes the maximal run without \<^verbatim>\<open><\<close>. The second component is
  \<^verbatim>\<open>match.end()\<close>.
\<close>

function finditer :: "pstr \<Rightarrow> nat \<Rightarrow> (pstr \<times> nat) list" where
  "finditer [] pos = []"
| "finditer (c # cs) pos =
     (if c = LT then
        (if takeWhile (\<lambda>x. x \<noteq> GT) cs \<noteq> [] \<and> dropWhile (\<lambda>x. x \<noteq> GT) cs \<noteq> [] then
           (c # takeWhile (\<lambda>x. x \<noteq> GT) cs @ [GT], pos + length (takeWhile (\<lambda>x. x \<noteq> GT) cs) + 2)
             # finditer (tl (dropWhile (\<lambda>x. x \<noteq> GT) cs)) (pos + length (takeWhile (\<lambda>x. x \<noteq> GT) cs) + 2)
         else finditer cs (pos + 1))
      else
        (c # takeWhile (\<lambda>x. x \<noteq> LT) cs, pos + 1 + length (takeWhile (\<lambda>x. x \<noteq> LT) cs))
          # finditer (dropWhile (\<lambda>x. x \<noteq> LT) cs) (pos + 1 + length (takeWhile (\<lambda>x. x \<noteq> LT) cs)))"
  by pat_completeness auto
termination
proof (relation "measure (\<lambda>(s, pos). length s)")
  show "wf (measure (\<lambda>(s, pos). length s))" by simp
next
  fix c :: pchar and cs :: pstr and pos :: nat
  have "length (tl (dropWhile (\<lambda>x. x \<noteq> GT) cs)) \<le> length cs"
    using length_dropWhile_le [of "\<lambda>x. x \<noteq> GT" cs] by simp
  then show "((tl (dropWhile (\<lambda>x. x \<noteq> GT) cs), pos + length (takeWhile (\<lambda>x. x \<noteq> GT) cs) + 2), c # cs, pos)
      \<in> measure (\<lambda>(s, pos). length s)"
    by simp
next
  fix c :: pchar and cs :: pstr and pos :: nat
  show "((cs, pos + 1), c # cs, pos) \<in> measure (\<lambda>(s, pos). length s)" by simp
next
  fix c :: pchar and cs :: pstr and pos :: nat
  show "((dropWhile (\<lambda>x. x \<noteq> LT) cs, pos + 1 + length (takeWhile (\<lambda>x. x \<noteq> LT) cs)), c # cs, pos)
      \<in> measure (\<lambda>(s, pos). length s)"
    using length_dropWhile_le [of "\<lambda>x. x \<noteq> LT" cs] by simp
qed

text \<open>One entry \<^verbatim>\<open>[element, is_html_tag, position]\<close> of the structure list.\<close>

datatype token = Token (element: pstr) (is_html_tag: bool) (position: nat)

definition mk_token :: "pstr \<times> nat \<Rightarrow> token" where
  "mk_token m = Token (fst m) (startswith (fst m) [LT] \<and> endswith (fst m) [GT]) (snd m)"

definition extract_html_structure :: "pstr \<Rightarrow> token list" where
  "extract_html_structure content =
     map mk_token (filter (\<lambda>m. strip (fst m) \<noteq> []) (finditer content 0))"

section \<open>Utilities (utils.py)\<close>

text \<open>
  \<^verbatim>\<open>truncate_str(s, length)\<close>: \<^verbatim>\<open>f"{s[:length]}...{s[-length:]}" if len(s) > length * 2 else s\<close>.
\<close>

definition truncate_str :: "pstr \<Rightarrow> int \<Rightarrow> pstr" where
  "truncate_str s n =
     (if int (length s) > n * 2 then slice_to s n @ ascii ''...'' @ slice_from s (- n) else s)"

section \<open>Exceptions\<close>

text \<open>
  The attributes that \<^verbatim>\<open>validate_html_structure\<close> attaches to its
  \<^verbatim>\<open>ValueError("Structure Mismatch")\<close>. The ratio is computed from integers by one
  division and one addition; the model computes it exactly, in the rationals.
\<close>

record mismatch =
  ratio :: rat
  orig :: token
  trans_tok :: token
  original_context :: pstr
  translated_context :: pstr

text \<open>
  The exceptions that travel through the program. \<open>StructureMismatch m\<close> is the
  \<^verbatim>\<open>ValueError\<close> whose message is \<^verbatim>\<open>"Structure Mismatch"\<close> together with its attributes;
  every other \<^verbatim>\<open>ValueError\<close> and \<^verbatim>\<open>RuntimeError\<close> carries its message.
\<close>

datatype py_exn =
    ValueError pstr
  | StructureMismatch mismatch
  | RuntimeError pstr
  | IndexError
  | UnboundLocalError
  | ZeroDivisionError
  | RateLimitError
  | BadRequestError
  | OtherError pstr

section \<open>Structure validator (html_processor.validate_html_structure)\<close>

text \<open>\<^verbatim>\<open>re.split(r'[\s>]', s)[0]\<close>: the text before the first whitespace or \<^verbatim>\<open>>\<close>.\<close>

definition tag_name :: "pstr \<Rightarrow> pstr" where
  "tag_name s = takeWhile (\<lambda>c. \<not> isspace c \<and> c \<noteq> GT) s"

definition tokens_differ :: "token \<Rightarrow> token \<Rightarrow> bool" where
  "tokens_differ original translated \<longleftrightarrow>
     is_html_tag original \<noteq> is_html_tag translated \<or>
     (is_html_tag original \<and> tag_name (element original) \<noteq> tag_name (element translated))"

text \<open>
  The body of the \<^verbatim>\<open>if\<close> that raises: the ratio divides by
  \<^verbatim>\<open>len(translated_content)\<close> (a \<^verbatim>\<open>ZeroDivisionError\<close> when that is empty) before the
  error is raised.
\<close>

definition mismatch_error ::
  "token list \<Rightarrow> pstr \<Rightarrow> nat \<Rightarrow> token list \<Rightarrow> nat \<Rightarrow> token \<Rightarrow> token \<Rightarrow> pstr \<Rightarrow> py_exn" where
  "mismatch_error original_structure translated_content start_position translated_structure i
      original translated leftover =
     (if length translated_content = 0 then ZeroDivisionError
      else StructureMismatch
        \<lparr> ratio = min 1
            ((of_nat (length (concat (map element (take (i + 1) translated_structure))))
                - of_nat (length leftover)) / of_nat (length translated_content) + 5 / 100),
          orig = original,
          trans_tok = translated,
          original_context = concat (map (\<lambda>s. truncate_str (element s) 50)
            (slice original_structure
               (max (int start_position) (int start_position + int i - 4))
               (int start_position + int i + 1))),
          translated_context = concat (map (\<lambda>s. truncate_str (element s) 50)
            (slice translated_structure (max 0 (int i - 4)) (int i + 1))) \<rparr>)"

text \<open>
  The \<^verbatim>\<open>for i, (orig, trans) in enumerate(zip(...))\<close> loop, carrying \<open>leftover\<close>. On the
  last translated token, when it is text (\<open>trailing_text\<close>), \<open>leftover\<close> is recomputed
  first (\<open>next_leftover\<close>); if there are several tokens and the new leftover starts with
  \<^verbatim>\<open><\<close>, the comparison of this pair is skipped by \<^verbatim>\<open>continue\<close> (\<open>skip_pair\<close>).
\<close>

definition trailing_text :: "token list \<Rightarrow> nat \<Rightarrow> token \<Rightarrow> bool" where
  "trailing_text translated_structure i translated \<longleftrightarrow>
     int i = int (length translated_structure) - 1 \<and> \<not> is_html_tag translated"

definition next_leftover :: "pstr \<Rightarrow> token list \<Rightarrow> nat \<Rightarrow> token \<Rightarrow> pstr \<Rightarrow> pstr" where
  "next_leftover translated_content translated_structure i translated leftover =
     (if trailing_text translated_structure i translated then
        (if length translated_structure = 1 then leftover @ translated_content
         else slice_from translated_content
           (str_rfind translated_content
               (element (translated_structure ! (length translated_structure - 2))) 0
            + int (length (element (translated_structure ! (length translated_structure - 2))))))
      else leftover)"

definition skip_pair :: "token list \<Rightarrow> nat \<Rightarrow> token \<Rightarrow> pstr \<Rightarrow> bool" where
  "skip_pair translated_structure i translated leftover \<longleftrightarrow>
     trailing_text translated_structure i translated \<and> length translated_structure \<noteq> 1 \<and>
     startswith (lstrip leftover) [LT]"

fun validate_loop ::
  "token list \<Rightarrow> pstr \<Rightarrow> nat \<Rightarrow> token list \<Rightarrow> nat \<Rightarrow> (token \<times> token) list \<Rightarrow> pstr
     \<Rightarrow> py_exn + pstr" where
  "validate_loop original_structure translated_content start_position translated_structure i
      [] leftover = Inr leftover"
| "validate_loop original_structure translated_content start_position translated_structure i
      ((original, translated) # rest) leftover =
     (let leftover' = next_leftover translated_content translated_structure i translated leftover
      in if \<not> skip_pair translated_structure i translated leftover'
            \<and> tokens_differ original translated then
           Inl (mismatch_error original_structure translated_content start_position
                  translated_structure i original translated leftover')
         else validate_loop original_structure translated_content start_position
                translated_structure (Suc i) rest leftover')"

text \<open>
  After the loop: \<^verbatim>\<open>translated_structure[-1]\<close> raises \<^verbatim>\<open>IndexError\<close> on an empty list, and
  the closing log line reads the loop variables \<^verbatim>\<open>i\<close>, \<^verbatim>\<open>orig\<close> and \<^verbatim>\<open>trans\<close>, which are
  unbound when the loop body never ran.
\<close>

definition validate_html_structure ::
  "token list \<Rightarrow> pstr \<Rightarrow> nat \<Rightarrow> pstr \<Rightarrow> py_exn + (nat \<times> pstr)" where
  "validate_html_structure original_structure translated_content start_position leftover =
     (let translated_structure = extract_html_structure (leftover @ translated_content);
          pairs = zip (drop start_position original_structure) translated_structure
      in case validate_loop original_structure translated_content start_position
                translated_structure 0 pairs leftover of
           Inl e \<Rightarrow> Inl e
         | Inr leftover' \<Rightarrow>
             if translated_structure = [] then Inl IndexError
             else if pairs = [] then Inl UnboundLocalError
             else if is_html_tag (last translated_structure)
               then Inr (start_position + length translated_structure, [])
               else Inr (start_position + length translated_structure - 1, leftover'))"

section \<open>Predicates used to state the properties\<close>

text \<open>
  Every \<^verbatim>\<open><\<close> of the string opens a tag: at least one character other than \<^verbatim>\<open>>\<close>
  follows it, and a \<^verbatim>\<open>>\<close> closes that run.
\<close>

fun well_tagged :: "pstr \<Rightarrow> bool" where
  "well_tagged [] = True"
| "well_tagged (c # cs) =
     ((c = LT \<longrightarrow> takeWhile (\<lambda>x. x \<noteq> GT) cs \<noteq> [] \<and> dropWhile (\<lambda>x. x \<noteq> GT) cs \<noteq> [])
      \<and> well_tagged cs)"


text \<open>
  The segments of a string, as the specification describes the tokens, for comparison with
  the tokenizer. A string opens a tag when it starts with \<^verbatim>\<open><\<close>, a character other than
  \<^verbatim>\<open>>\<close> follows, and a \<^verbatim>\<open>>\<close> comes later. The segments are cut off the front of the string
  one after the other: where the rest opens a tag, the segment is the tag, up to its first
  \<^verbatim>\<open>>\<close>; at any other \<^verbatim>\<open><\<close> the segment is that character alone; elsewhere the segment is
  the run up to the next \<^verbatim>\<open><\<close> or to the end.
\<close>

fun opens_tag :: "pstr \<Rightarrow> bool" where
  "opens_tag [] = False"
| "opens_tag (c # cs) = (c = LT \<and> cs \<noteq> [] \<and> hd cs \<noteq> GT \<and> GT \<in> set cs)"

fun segmentation :: "pstr \<Rightarrow> pstr list \<Rightarrow> bool" where
  "segmentation s [] = (s = [])"
| "segmentation s (seg # segs) =
     (seg \<noteq> [] \<and> take (length seg) s = seg \<and> segmentation (drop (length seg) s) segs \<and>
      (if opens_tag s then last seg = GT \<and> GT \<notin> set (butlast seg)
       else if hd s = LT then seg = [LT]
       else LT \<notin> set seg \<and> (drop (length seg) s = [] \<or> hd (drop (length seg) s) = LT)))"

text \<open>
  The repeated words of a window, as the specification describes them, for comparison with
  the detector: the different words of the window in the order of their first occurrence,
  and of these the ones that occur at least \<open>threshold\<close> times in the window.
\<close>

definition first_occurrences :: "'a list \<Rightarrow> 'a list" where
  "first_occurrences ws = rev (remdups (rev ws))"

definition frequent_words :: "pstr list \<Rightarrow> nat \<Rightarrow> pstr list" where
  "frequent_words window threshold =
     filter (\<lambda>w. threshold \<le> count_list window w) (first_occurrences window)"

text \<open>
  The consumed ratio as the specification words it, for comparison with the code: the
  quotient is capped at 1 first and 0.05 is added to the capped value.
\<close>

definition spec_consumed_ratio :: "token list \<Rightarrow> nat \<Rightarrow> pstr \<Rightarrow> pstr \<Rightarrow> rat" where
  "spec_consumed_ratio translated_structure i leftover translated_content =
     min 1 ((of_nat (length (concat (map element (take (i + 1) translated_structure))))
              - of_nat (length leftover)) / of_nat (length translated_content)) + 5 / 100"

text \<open>The attributes of the error a call raised, when it raised a structure mismatch.\<close>

definition raised_mismatch :: "py_exn + 'a \<Rightarrow> mismatch option" where
  "raised_mismatch r = (case r of Inl (StructureMismatch m) \<Rightarrow> Some m | _ \<Rightarrow> None)"

section \<open>Leak detector (utils.contains_hebrew)\<close>

text \<open>
  \<^verbatim>\<open>LANGUAGE_CONFIG['hebrew_chars']['ranges']\<close> comes from the configuration module, which
  is not part of the sources at hand: the list of \<open>(start, end)\<close> pairs is a parameter.

  The inner loop over the ranges, for the character \<open>c\<close> at index \<open>i\<close>: \<open>Inl\<close> is the early
  \<^verbatim>\<open>return hebrew_chars\<close>, taken once the list is longer than 15; \<open>Inr\<close> hands the list
  on to the next character.
\<close>

fun hebrew_ranges_loop :: "(nat \<times> nat) list \<Rightarrow> nat \<Rightarrow> pchar \<Rightarrow> nat list \<Rightarrow> nat list + nat list" where
  "hebrew_ranges_loop [] i c hebrew_chars = Inr hebrew_chars"
| "hebrew_ranges_loop ((start, stop) # ranges) i c hebrew_chars =
     (if start \<le> c \<and> c \<le> stop then
        (if length (hebrew_chars @ [i]) > 15 then Inl (hebrew_chars @ [i])
         else hebrew_ranges_loop ranges i c (hebrew_chars @ [i]))
      else hebrew_ranges_loop ranges i c hebrew_chars)"

fun hebrew_text_loop :: "(nat \<times> nat) list \<Rightarrow> nat \<Rightarrow> pstr \<Rightarrow> nat list \<Rightarrow> nat list" where
  "hebrew_text_loop ranges i [] hebrew_chars = hebrew_chars"
| "hebrew_text_loop ranges i (c # cs) hebrew_chars =
     (case hebrew_ranges_loop ranges i c hebrew_chars of
        Inl found \<Rightarrow> found
      | Inr hebrew_chars' \<Rightarrow> hebrew_text_loop ranges (Suc i) cs hebrew_chars')"

definition contains_hebrew :: "(nat \<times> nat) list \<Rightarrow> pstr \<Rightarrow> nat list" where
  "contains_hebrew ranges s = hebrew_text_loop ranges 0 s []"

text \<open>A character lies in one of the ranges; no code point lies in two of them.\<close>

definition in_ranges :: "(nat \<times> nat) list \<Rightarrow> pchar \<Rightarrow> bool" where
  "in_ranges ranges c \<longleftrightarrow> list_ex (\<lambda>(start, stop). start \<le> c \<and> c \<le> stop) ranges"

fun disjoint_ranges :: "(nat \<times> nat) list \<Rightarrow> bool" where
  "disjoint_ranges [] = True"
| "disjoint_ranges ((start, stop) # ranges) =
     (list_all (\<lambda>(start', stop'). stop < start' \<or> stop' < start) ranges \<and> disjoint_ranges ranges)"

text \<open>
  The indices, counted from \<open>i\<close>, of the characters of a string that lie in the ranges: what
  the detector would collect without its early return.
\<close>

fun positions_from :: "(nat \<times> nat) list \<Rightarrow> nat \<Rightarrow> pstr \<Rightarrow> nat list" where
  "positions_from ranges i [] = []"
| "positions_from ranges i (c # cs) =
     (if in_ranges ranges c then i # positions_from ranges (Suc i) cs
      else positions_from ranges (Suc i) cs)"

section \<open>Chunk boundary adjuster (translator.adjust_chunks)\<close>

text \<open>
  A chunk is the two-element list \<^verbatim>\<open>[index, text]\<close>. The chunk objects are shared between
  \<^verbatim>\<open>chunks\<close> and the copy \<^verbatim>\<open>chunks[:-1]\<close> the loop runs over, and are updated in place:
  the model keeps the list of chunks as its state, reads a chunk at its place in the list
  and writes it back there, one assignment after the other.
\<close>

type_synonym chunk = "nat \<times> pstr"

definition set_chunk_text :: "chunk list \<Rightarrow> nat \<Rightarrow> pstr \<Rightarrow> chunk list" where
  "set_chunk_text chunks k s = chunks[k := (fst (chunks ! k), s)]"

text \<open>
  The even split in \<^verbatim>\<open>translate_html_file\<close>. \<^verbatim>\<open>TRANSLATION_CONFIG['chunk_max_size']\<close>
  comes from the configuration module, which is not part of the sources at hand, and is a
  parameter; the first division raises when it is zero.
\<close>

definition split_chunks :: "pstr \<Rightarrow> nat \<Rightarrow> py_exn + chunk list" where
  "split_chunks translation_content chunk_max_size =
     (if chunk_max_size = 0 then Inl ZeroDivisionError
      else
        (let chunks_num = length translation_content div chunk_max_size + 1;
             chunk_size = length translation_content div chunks_num + 1
         in Inr (map (\<lambda>i. (i, slice translation_content (int (i * chunk_size))
                                (int ((i + 1) * chunk_size))))
                   [0..<chunks_num])))"

text \<open>
  \<^verbatim>\<open>chunk[1] += next_chunk[1][:n]; next_chunk[1] = next_chunk[1][n:]\<close>, with \<open>chunk\<close> at
  place \<open>k\<close> and \<open>next_chunk\<close> at place \<open>j\<close>.
\<close>

definition move_back :: "nat \<Rightarrow> nat \<Rightarrow> int \<Rightarrow> chunk list \<Rightarrow> chunk list" where
  "move_back k j n chunks =
     (let chunks' = set_chunk_text chunks k (snd (chunks ! k) @ slice_to (snd (chunks ! j)) n)
      in set_chunk_text chunks' j (slice_from (snd (chunks' ! j)) n))"

text \<open>\<^verbatim>\<open>next_chunk[1] = chunk[1][n:] + next_chunk[1]; chunk[1] = chunk[1][:n]\<close>, for the cut \<open>n\<close>.\<close>

definition move_forward :: "nat \<Rightarrow> nat \<Rightarrow> int \<Rightarrow> chunk list \<Rightarrow> chunk list" where
  "move_forward k j n chunks =
     (let chunks' = set_chunk_text chunks j (slice_from (snd (chunks ! k)) n @ snd (chunks ! j))
      in set_chunk_text chunks' k (slice_to (snd (chunks' ! k)) n))"

text \<open>
  \<^verbatim>\<open>for separator in separators\<close>: the first separator that gives a cut ends the loop
  (\<^verbatim>\<open>break\<close>); \<open>this_cut\<close> is the variable \<^verbatim>\<open>cut\<close>. \<^verbatim>\<open>-len(chunk[1])//7\<close> is the floor division of the
  negated length.
  \<^verbatim>\<open>LANGUAGE_CONFIG['text_separators']\<close> is a parameter, as above.
\<close>

fun separator_loop :: "pstr list \<Rightarrow> nat \<Rightarrow> nat \<Rightarrow> chunk list \<Rightarrow> chunk list" where
  "separator_loop [] k j chunks = chunks"
| "separator_loop (separator # separators) k j chunks =
     (let next_cut = str_find (snd (chunks ! j)) separator 0 (int (length (snd (chunks ! j))) div 7);
          this_cut = str_rfind (snd (chunks ! k)) separator ((- int (length (snd (chunks ! k)))) div 7)
      in if - 1 < next_cut \<and>
            next_cut < int (length (snd (chunks ! k))) - this_cut - 2 * int (length separator) then
           move_back k j (next_cut + int (length separator)) chunks
         else if this_cut \<noteq> - 1 then
           move_forward k j (this_cut + int (length separator)) chunks
         else separator_loop separators k j chunks)"

text \<open>
  \<^verbatim>\<open>for item in extract_html_structure(next_chunk[1])\<close>: the token list is computed once,
  before the loop; the leading tags move to the end of \<open>chunk\<close>, up to the first text token.
\<close>

fun tag_loop :: "token list \<Rightarrow> nat \<Rightarrow> nat \<Rightarrow> chunk list \<Rightarrow> chunk list" where
  "tag_loop [] k j chunks = chunks"
| "tag_loop (item # items) k j chunks =
     (if is_html_tag item then
        tag_loop items k j
          (move_back k j
             (str_find (snd (chunks ! j)) (element item) 0 (int (length (snd (chunks ! j))))
                + int (length (element item)))
             chunks)
      else chunks)"

text \<open>
  \<^verbatim>\<open>for chunk in chunks[:-1]\<close>, over the places \<open>ks\<close>; \<^verbatim>\<open>chunks[chunk[0]+1]\<close> raises
  \<^verbatim>\<open>IndexError\<close> when the stored index points past the list.
\<close>

fun adjust_loop :: "pstr list \<Rightarrow> nat list \<Rightarrow> chunk list \<Rightarrow> py_exn + chunk list" where
  "adjust_loop separators [] chunks = Inr chunks"
| "adjust_loop separators (k # ks) chunks =
     (if fst (chunks ! k) + 1 \<ge> length chunks then Inl IndexError
      else
        (let chunks' = separator_loop separators k (fst (chunks ! k) + 1) chunks;
             chunks'' = tag_loop (extract_html_structure (snd (chunks' ! (fst (chunks ! k) + 1))))
                          k (fst (chunks ! k) + 1) chunks'
         in adjust_loop separators ks chunks''))"

definition adjust_chunks :: "pstr list \<Rightarrow> chunk list \<Rightarrow> py_exn + chunk list" where
  "adjust_chunks separators chunks = adjust_loop separators [0..<length chunks - 1] chunks"

text \<open>Chunk lists whose stored indices are the places in the list.\<close>

definition indexed :: "chunk list \<Rightarrow> bool" where
  "indexed chunks \<longleftrightarrow> map fst chunks = [0..<length chunks]"

section \<open>Repetition detector (utils.remove_formatting, utils.abnormal_repetitions)\<close>

text \<open>
  \<^verbatim>\<open>s.replace(old, new)\<close>: the occurrences of \<open>old\<close> are replaced from left to right, without
  overlap; an empty \<open>old\<close> matches before every character and at the end.
\<close>

function replace_loop :: "pstr \<Rightarrow> pstr \<Rightarrow> pstr \<Rightarrow> pstr" where
  "replace_loop [] old new = []"
| "replace_loop (c # cs) old new =
     (if old \<noteq> [] \<and> startswith (c # cs) old then new @ replace_loop (drop (length old) (c # cs)) old new
      else c # replace_loop cs old new)"
  by pat_completeness auto
termination
  by (relation "measure (\<lambda>(s, old, new). length s)") auto

definition str_replace :: "pstr \<Rightarrow> pstr \<Rightarrow> pstr \<Rightarrow> pstr" where
  "str_replace s old new =
     (if old = [] then new @ concat (map (\<lambda>c. c # new) s) else replace_loop s old new)"

text \<open>\<^verbatim>\<open>re.sub(r'\s+', ' ', s)\<close>; the flag says that the scan is inside a whitespace run.\<close>

fun collapse_spaces :: "bool \<Rightarrow> pstr \<Rightarrow> pstr" where
  "collapse_spaces in_run [] = []"
| "collapse_spaces in_run (c # cs) =
     (if isspace c then (if in_run then collapse_spaces True cs else 32 # collapse_spaces True cs)
      else c # collapse_spaces False cs)"

definition remove_formatting :: "pstr \<Rightarrow> pstr" where
  "remove_formatting s =
     (let s1 = collapse_spaces False
                 (str_replace (str_replace (str_replace s [10] [32]) [9] [32]) [13] [32])
      in str_replace (str_replace (str_replace s1 (ascii ''> <'') (ascii ''><''))
                        (ascii '' <br>'') (ascii ''<br>''))
           (ascii ''<br> '') (ascii ''<br>''))"

text \<open>\<^verbatim>\<open>re.sub(r'<[^>]+>', '', s)\<close>: the tags, as the tokenizer matches them, are removed.\<close>

function remove_tags :: "pstr \<Rightarrow> pstr" where
  "remove_tags [] = []"
| "remove_tags (c # cs) =
     (if c = LT then
        (if takeWhile (\<lambda>x. x \<noteq> GT) cs \<noteq> [] \<and> dropWhile (\<lambda>x. x \<noteq> GT) cs \<noteq> [] then
           remove_tags (tl (dropWhile (\<lambda>x. x \<noteq> GT) cs))
         else c # remove_tags cs)
      else c # remove_tags cs)"
  by pat_completeness auto
termination
proof (relation "measure length")
  show "wf (measure (length :: pstr \<Rightarrow> nat))" by simp
next
  fix c :: pchar and cs :: pstr
  have "length (tl (dropWhile (\<lambda>x. x \<noteq> GT) cs)) \<le> length cs"
    using length_dropWhile_le [of "\<lambda>x. x \<noteq> GT" cs] by simp
  then show "(tl (dropWhile (\<lambda>x. x \<noteq> GT) cs), c # cs) \<in> measure length" by simp
next
  fix c :: pchar and cs :: pstr
  show "(cs, c # cs) \<in> measure length" by simp
next
  fix c :: pchar and cs :: pstr
  show "(cs, c # cs) \<in> measure length" by simp
qed

text \<open>
  \<^verbatim>\<open>re.sub(r'[^\w\s]', ' ', s)\<close>. Which characters are alphanumeric, and what \<^verbatim>\<open>str.lower\<close>
  returns, is decided by the Unicode tables of the interpreter: both are parameters
  (\<open>isalnum\<close>, \<open>lower\<close>). A word character is an alphanumeric one or the underscore.
\<close>

definition blank_punctuation :: "(pchar \<Rightarrow> bool) \<Rightarrow> pstr \<Rightarrow> pstr" where
  "blank_punctuation isalnum s = map (\<lambda>c. if isalnum c \<or> c = 95 \<or> isspace c then c else 32) s"

text \<open>\<^verbatim>\<open>s.split()\<close>: the maximal runs without whitespace; \<open>word\<close> is the run being read.\<close>

fun split_loop :: "pstr \<Rightarrow> pstr \<Rightarrow> pstr list" where
  "split_loop [] word = (if word = [] then [] else [word])"
| "split_loop (c # cs) word =
     (if isspace c then (if word = [] then split_loop cs [] else word # split_loop cs [])
      else split_loop cs (word @ [c]))"

definition split_words :: "pstr \<Rightarrow> pstr list" where
  "split_words s = split_loop s []"

text \<open>The first two lines of \<^verbatim>\<open>abnormal_repetitions\<close>: the list \<^verbatim>\<open>words\<close>.\<close>

definition word_list :: "(pchar \<Rightarrow> bool) \<Rightarrow> (pstr \<Rightarrow> pstr) \<Rightarrow> pstr \<Rightarrow> bool \<Rightarrow> pstr list" where
  "word_list isalnum lower s asian =
     (let words = strip (lower (remove_formatting (blank_punctuation isalnum
                    (remove_tags (str_replace s (ascii ''&nbsp;'') [32])))))
      in if asian then map (\<lambda>c. [c]) (str_replace words [32] []) else split_words words)"

text \<open>
  \<^verbatim>\<open>Counter(words[i:i+window_size])\<close>: a dictionary, which keeps its keys in the order of
  their first insertion; \<^verbatim>\<open>items()\<close> lists it in that order.
\<close>

fun counter_add :: "('a \<times> nat) list \<Rightarrow> 'a \<Rightarrow> ('a \<times> nat) list" where
  "counter_add [] w = [(w, 1)]"
| "counter_add ((v, n) # counts) w =
     (if v = w then (v, n + 1) # counts else (v, n) # counter_add counts w)"

definition Counter :: "'a list \<Rightarrow> ('a \<times> nat) list" where
  "Counter ws = foldl counter_add [] ws"

definition repeated_words :: "pstr list \<Rightarrow> bool \<Rightarrow> nat \<Rightarrow> nat \<Rightarrow> pstr list" where
  "repeated_words words asian window_size i =
     map fst (filter (\<lambda>(word, count). count \<ge> (if asian then 35 else 20))
       (Counter (slice words (int i) (int i + int window_size))))"

text \<open>The loop over the window starts; the first window with more than two repeated words ends it.\<close>

fun window_loop :: "pstr list \<Rightarrow> bool \<Rightarrow> nat \<Rightarrow> nat list \<Rightarrow> pstr list" where
  "window_loop words asian window_size [] = []"
| "window_loop words asian window_size (i # starts) =
     (if length (repeated_words words asian window_size i) > 2
      then repeated_words words asian window_size i
      else window_loop words asian window_size starts)"

text \<open>
  \<^verbatim>\<open>range(0, len(words) - window_size + 1, window_size // 2)\<close>: the multiples of the step
  below the stop; a step of zero raises \<^verbatim>\<open>ValueError\<close>.
\<close>

definition window_starts :: "nat \<Rightarrow> nat \<Rightarrow> nat list" where
  "window_starts n window_size =
     filter (\<lambda>i. i mod (window_size div 2) = 0) [0..<nat (int n - int window_size + 1)]"

definition abnormal_repetitions ::
  "(pchar \<Rightarrow> bool) \<Rightarrow> (pstr \<Rightarrow> pstr) \<Rightarrow> pstr \<Rightarrow> bool \<Rightarrow> nat \<Rightarrow> py_exn + pstr list" where
  "abnormal_repetitions isalnum lower s asian window_size =
     (let words = word_list isalnum lower s asian
      in if window_size div 2 = 0 then Inl (ValueError (ascii ''range() arg 3 must not be zero''))
         else Inr (window_loop words asian window_size (window_starts (length words) window_size)))"

text \<open>The two Unicode tables on ASCII text, where they are these.\<close>

definition ascii_isalnum :: "pchar \<Rightarrow> bool" where
  "ascii_isalnum c \<longleftrightarrow> (48 \<le> c \<and> c \<le> 57) \<or> (65 \<le> c \<and> c \<le> 90) \<or> (97 \<le> c \<and> c \<le> 122)"

definition ascii_lower :: "pstr \<Rightarrow> pstr" where
  "ascii_lower s = map (\<lambda>c. if 65 \<le> c \<and> c \<le> 90 then c + 32 else c) s"

text \<open>
  Three sample texts. The first two have 200 words: the word \<^verbatim>\<open>a\<close> 25 times (10 times in the
  second), then pairwise different two-letter words. The third repeats \<^verbatim>\<open>x y z\<close> 67 times.
\<close>

definition sample_25 :: pstr where
  "sample_25 = ascii ''a a a a a a a a a a a a a a a a a a a a a a a a a ba bb bc bd be bf bg bh bi bj bk bl bm bn bo bp bq br bs bt bu bv bw bx by bz ca cb cc cd ce cf cg ch ci cj ck cl cm cn co cp cq cr cs ct cu cv cw cx cy cz da db dc dd de df dg dh di dj dk dl dm dn do dp dq dr ds dt du dv dw dx dy dz ea eb ec ed ee ef eg eh ei ej ek el em en eo ep eq er es et eu ev ew ex ey ez fa fb fc fd fe ff fg fh fi fj fk fl fm fn fo fp fq fr fs ft fu fv fw fx fy fz ga gb gc gd ge gf gg gh gi gj gk gl gm gn go gp gq gr gs gt gu gv gw gx gy gz ha hb hc hd he hf hg hh hi hj hk hl hm hn ho hp hq hr hs''"

definition sample_10 :: pstr where
  "sample_10 = ascii ''a a a a a a a a a a ba bb bc bd be bf bg bh bi bj bk bl bm bn bo bp bq br bs bt bu bv bw bx by bz ca cb cc cd ce cf cg ch ci cj ck cl cm cn co cp cq cr cs ct cu cv cw cx cy cz da db dc dd de df dg dh di dj dk dl dm dn do dp dq dr ds dt du dv dw dx dy dz ea eb ec ed ee ef eg eh ei ej ek el em en eo ep eq er es et eu ev ew ex ey ez fa fb fc fd fe ff fg fh fi fj fk fl fm fn fo fp fq fr fs ft fu fv fw fx fy fz ga gb gc gd ge gf gg gh gi gj gk gl gm gn go gp gq gr gs gt gu gv gw gx gy gz ha hb hc hd he hf hg hh hi hj hk hl hm hn ho hp hq hr hs ht hu hv hw hx hy hz ia ib ic id ie if ig ih''"

definition sample_xyz :: pstr where
  "sample_xyz = ascii ''x y z x y z x y z x y z x y z x y z x y z x y z x y z x y z x y z x y z x y z x y z x y z x y z x y z x y z x y z x y z x y z x y z x y z x y z x y z x y z x y z x y z x y z x y z x y z x y z x y z x y z x y z x y z x y z x y z x y z x y z x y z x y z x y z x y z x y z x y z x y z x y z x y z x y z x y z x y z x y z x y z x y z x y z x y z x y z x y z x y z x y z x y z x y z x y z x y z x y z x y z''"

text \<open>Lower-case ASCII letters, digits and the space: text that the preprocessing only splits.\<close>

definition plain :: "pchar \<Rightarrow> bool" where
  "plain c \<longleftrightarrow> c = 32 \<or> (48 \<le> c \<and> c \<le> 57) \<or> (97 \<le> c \<and> c \<le> 122)"

text \<open>190 pairwise different two-letter words, the filler of the first two samples.\<close>

definition filler_words :: "pstr list" where
  "filler_words = map ascii
     [''ba'', ''bb'', ''bc'', ''bd'', ''be'', ''bf'', ''bg'', ''bh'', ''bi'', ''bj'',
      ''bk'', ''bl'', ''bm'', ''bn'', ''bo'', ''bp'', ''bq'', ''br'', ''bs'', ''bt'',
      ''bu'', ''bv'', ''bw'', ''bx'', ''by'', ''bz'', ''ca'', ''cb'', ''cc'', ''cd'',
      ''ce'', ''cf'', ''cg'', ''ch'', ''ci'', ''cj'', ''ck'', ''cl'', ''cm'', ''cn'',
      ''co'', ''cp'', ''cq'', ''cr'', ''cs'', ''ct'', ''cu'', ''cv'', ''cw'', ''cx'',
      ''cy'', ''cz'', ''da'', ''db'', ''dc'', ''dd'', ''de'', ''df'', ''dg'', ''dh'',
      ''di'', ''dj'', ''dk'', ''dl'', ''dm'', ''dn'', ''do'', ''dp'', ''dq'', ''dr'',
      ''ds'', ''dt'', ''du'', ''dv'', ''dw'', ''dx'', ''dy'', ''dz'', ''ea'', ''eb'',
      ''ec'', ''ed'', ''ee'', ''ef'', ''eg'', ''eh'', ''ei'', ''ej'', ''ek'', ''el'',
      ''em'', ''en'', ''eo'', ''ep'', ''eq'', ''er'', ''es'', ''et'', ''eu'', ''ev'',
      ''ew'', ''ex'', ''ey'', ''ez'', ''fa'', ''fb'', ''fc'', ''fd'', ''fe'', ''ff'',
      ''fg'', ''fh'', ''fi'', ''fj'', ''fk'', ''fl'', ''fm'', ''fn'', ''fo'', ''fp'',
      ''fq'', ''fr'', ''fs'', ''ft'', ''fu'', ''fv'', ''fw'', ''fx'', ''fy'', ''fz'',
      ''ga'', ''gb'', ''gc'', ''gd'', ''ge'', ''gf'', ''gg'', ''gh'', ''gi'', ''gj'',
      ''gk'', ''gl'', ''gm'', ''gn'', ''go'', ''gp'', ''gq'', ''gr'', ''gs'', ''gt'',
      ''gu'', ''gv'', ''gw'', ''gx'', ''gy'', ''gz'', ''ha'', ''hb'', ''hc'', ''hd'',
      ''he'', ''hf'', ''hg'', ''hh'', ''hi'', ''hj'', ''hk'', ''hl'', ''hm'', ''hn'',
      ''ho'', ''hp'', ''hq'', ''hr'', ''hs'', ''ht'', ''hu'', ''hv'', ''hw'', ''hx'',
      ''hy'', ''hz'', ''ia'', ''ib'', ''ic'', ''id'', ''ie'', ''if'', ''ig'', ''ih'']"

section \<open>More string operations\<close>

text \<open>\<^verbatim>\<open>sub in s\<close> for strings, and \<^verbatim>\<open>xs[i]\<close> for a Python integer \<open>i\<close>.\<close>

definition contains :: "pstr \<Rightarrow> pstr \<Rightarrow> bool" where
  "contains s sub \<longleftrightarrow> str_find s sub 0 (int (length s)) \<noteq> - 1"

definition py_nth :: "'a list \<Rightarrow> int \<Rightarrow> py_exn + 'a" where
  "py_nth xs i =
     (if 0 \<le> i \<and> i < int (length xs) then Inr (xs ! nat i)
      else if i < 0 \<and> - int (length xs) \<le> i then Inr (xs ! nat (int (length xs) + i))
      else Inl IndexError)"

text \<open>\<^verbatim>\<open>str(n)\<close> for a natural number: its decimal digits.\<close>

function show_nat :: "nat \<Rightarrow> pstr" where
  "show_nat n = (if n < 10 then [48 + n] else show_nat (n div 10) @ [48 + n mod 10])"
  by pat_completeness auto
termination
  by (relation "measure id") auto

text \<open>\<^verbatim>\<open>int(q)\<close> for a quotient: truncation towards zero.\<close>

definition trunc :: "rat \<Rightarrow> int" where
  "trunc q = (if 0 \<le> q then \<lfloor>q\<rfloor> else \<lceil>q\<rceil>)"

text \<open>
  \<^verbatim>\<open>re.sub(r'<([^/>\s]+)[^>]*>', r'<\1>', s)\<close>: a tag keeps its name and loses its
  attributes. The name is the longest run after \<^verbatim>\<open><\<close> without \<^verbatim>\<open>/\<close>, \<^verbatim>\<open>>\<close> and
  whitespace, and must not be empty, so closing tags stay as they are; the match ends at the
  first \<^verbatim>\<open>>\<close>.
\<close>

definition name_char :: "pchar \<Rightarrow> bool" where
  "name_char c \<longleftrightarrow> c \<noteq> 47 \<and> c \<noteq> GT \<and> \<not> isspace c"

function simplify_tags :: "pstr \<Rightarrow> pstr" where
  "simplify_tags [] = []"
| "simplify_tags (c # cs) =
     (if c = LT then
        (if takeWhile name_char cs \<noteq> [] \<and> dropWhile (\<lambda>x. x \<noteq> GT) cs \<noteq> [] then
           (c # takeWhile name_char cs @ [GT]) @ simplify_tags (tl (dropWhile (\<lambda>x. x \<noteq> GT) cs))
         else c # simplify_tags cs)
      else c # simplify_tags cs)"
  by pat_completeness auto
termination
proof (relation "measure length")
  show "wf (measure (length :: pstr \<Rightarrow> nat))" by simp
next
  fix c :: pchar and cs :: pstr
  have "length (tl (dropWhile (\<lambda>x. x \<noteq> GT) cs)) \<le> length cs"
    using length_dropWhile_le [of "\<lambda>x. x \<noteq> GT" cs] by simp
  then show "(tl (dropWhile (\<lambda>x. x \<noteq> GT) cs), c # cs) \<in> measure length" by simp
next
  fix c :: pchar and cs :: pstr
  show "(cs, c # cs) \<in> measure length" by simp
next
  fix c :: pchar and cs :: pstr
  show "(cs, c # cs) \<in> measure length" by simp
qed

text \<open>\<^verbatim>\<open>re.search(r'<[^>]+>', s)\<close> finds a tag exactly when removing the tags changes \<open>s\<close>.\<close>

definition has_tag :: "pstr \<Rightarrow> bool" where
  "has_tag s \<longleftrightarrow> remove_tags s \<noteq> s"

text \<open>
  \<^verbatim>\<open>utils.extract_test\<close>: the text of a \<^verbatim>\<open><test ...></test>\<close> element and the answer before
  it.
\<close>

definition extract_test :: "pstr \<Rightarrow> pstr \<times> pstr" where
  "extract_test answer =
     (let start_index = str_find answer (ascii ''<test'') 0 (int (length answer))
      in if start_index = - 1 then ([], answer)
         else (strip (slice answer (start_index + int (length (ascii ''<test '')))
                        (str_rfind answer (ascii ''></test>'') 0)),
               slice_to answer start_index))"

text \<open>
  \<^verbatim>\<open>re.search(r'\s*(?:\[[^\]]+\][\s]*)+$', answer)\<close> on an answer that has been stripped on
  the right. \<open>bracket_groups s\<close> says that \<open>s\<close> is one or more bracketed comments, each
  followed by optional whitespace, up to the end; \<open>comment_tail s\<close> says that the whole
  pattern matches \<open>s\<close>; \<open>comment_start s\<close> is the index of the leftmost match.
\<close>

function bracket_groups :: "pstr \<Rightarrow> bool" where
  "bracket_groups [] = False"
| "bracket_groups (c # cs) =
     (if c = 91 then
        (if takeWhile (\<lambda>x. x \<noteq> 93) cs \<noteq> [] \<and> dropWhile (\<lambda>x. x \<noteq> 93) cs \<noteq> [] then
           (dropWhile isspace (tl (dropWhile (\<lambda>x. x \<noteq> 93) cs)) = [] \<or>
            bracket_groups (dropWhile isspace (tl (dropWhile (\<lambda>x. x \<noteq> 93) cs))))
         else False)
      else False)"
  by pat_completeness auto
termination
proof (relation "measure length")
  show "wf (measure (length :: pstr \<Rightarrow> nat))" by simp
next
  fix c :: pchar and cs :: pstr
  have "length (dropWhile isspace (tl (dropWhile (\<lambda>x. x \<noteq> 93) cs)))
          \<le> length (tl (dropWhile (\<lambda>x. x \<noteq> 93) cs))"
    by (rule length_dropWhile_le)
  also have "\<dots> \<le> length cs"
    using length_dropWhile_le [of "\<lambda>x. x \<noteq> 93" cs] by simp
  finally show "(dropWhile isspace (tl (dropWhile (\<lambda>x. x \<noteq> 93) cs)), c # cs) \<in> measure length"
    by simp
qed

definition comment_tail :: "pstr \<Rightarrow> bool" where
  "comment_tail s \<longleftrightarrow> bracket_groups (dropWhile isspace s)"

fun comment_start :: "pstr \<Rightarrow> nat option" where
  "comment_start [] = None"
| "comment_start (c # cs) =
     (if comment_tail (c # cs) then Some 0 else map_option Suc (comment_start cs))"

text \<open>
  The clean-up of the text of a reply in \<^verbatim>\<open>translate_chunk\<close>: the test element is cut off,
  the answer is stripped on the right and of leading newlines, and a trailing run of
  bracketed comments is removed.
\<close>

definition clean_answer :: "pstr \<Rightarrow> pstr" where
  "clean_answer reply_text =
     (let answer = dropWhile (\<lambda>c. c = 10) (rstrip (snd (extract_test reply_text)))
      in case comment_start answer of
           None \<Rightarrow> answer
         | Some start \<Rightarrow> rstrip (take start answer))"

section \<open>The Generator, the files and the configuration\<close>

text \<open>
  What \<^verbatim>\<open>client.messages.create\<close> gives back: a message, of which the program reads
  \<^verbatim>\<open>content[0].text\<close> (\<open>content_text\<close>; \<open>None\<close> stands for an empty \<^verbatim>\<open>content\<close>), \<^verbatim>\<open>stop_reason\<close> and
  \<^verbatim>\<open>usage.output_tokens\<close>; or an exception. The Generator is outside the program: a run
  is given the list of its replies, one for each request, in order.
\<close>

record message =
  content_text :: "pstr option"
  stop_reason :: pstr
  output_tokens :: nat

datatype api_failure = RateLimited | InvalidRequest | Unexpected pstr

datatype reply = Answers message | Fails api_failure

text \<open>The request that \<^verbatim>\<open>create_translation_message\<close> sends.\<close>

record request =
  rq_system_text :: pstr
  rq_prompt :: pstr
  rq_assistant_answer :: pstr
  rq_max_tokens :: nat
  rq_temperature :: rat
  rq_use_cache :: bool
  rq_new_model :: bool

text \<open>
  \<^verbatim>\<open>api_client.create_translation_message\<close>: a rate-limit or bad-request error of the
  client library is logged and replaced by \<^verbatim>\<open>RuntimeError("!Stop!")\<close>; any other exception is
  raised again as it is.
\<close>

definition create_translation_message :: "reply \<Rightarrow> py_exn + message" where
  "create_translation_message r =
     (case r of
        Answers m \<Rightarrow> Inr m
      | Fails RateLimited \<Rightarrow> Inl (RuntimeError (ascii ''!Stop!''))
      | Fails InvalidRequest \<Rightarrow> Inl (RuntimeError (ascii ''!Stop!''))
      | Fails (Unexpected what) \<Rightarrow> Inl (OtherError what))"

text \<open>
  The checkpoint dictionary \<^verbatim>\<open>saved_data\<close>. Its list \<^verbatim>\<open>chunks\<close> holds chunks and, after a
  completed chunk, the string \<^verbatim>\<open>"Chunk End"\<close>. The dictionary starts with the two lists only;
  the other three keys are assigned before the dictionary is ever written.
\<close>

datatype entry = Chunk nat pstr | ChunkEnd

record saved_data =
  sd_chunks :: "entry list"
  sd_translations :: "pstr list"
  sd_current_position :: nat
  sd_leftover :: pstr
  sd_chunk_end_position :: nat

text \<open>
  A file is the sequence of what has been written to it: text, or the JSON dump of a
  checkpoint. A file just opened for writing is empty. The file system maps paths to files.
\<close>

datatype piece = Chars pstr | Dump saved_data

type_synonym files = "pstr \<Rightarrow> piece list option"

definition rename_file :: "files \<Rightarrow> pstr \<Rightarrow> pstr \<Rightarrow> files" where
  "rename_file fs src dst = (fs(dst := fs src))(src := None)"

definition open_for_writing :: "files \<Rightarrow> pstr \<Rightarrow> files" where
  "open_for_writing fs path = fs(path \<mapsto> [])"

definition write_piece :: "files \<Rightarrow> pstr \<Rightarrow> piece \<Rightarrow> files" where
  "write_piece fs path p = fs(path \<mapsto> (case fs path of None \<Rightarrow> [] | Some f \<Rightarrow> f) @ [p])"

text \<open>\<^verbatim>\<open>json.load\<close> of a checkpoint file: it parses a file that holds one complete dump.\<close>

definition json_load :: "files \<Rightarrow> pstr \<Rightarrow> py_exn + saved_data" where
  "json_load fs path =
     (case fs path of
        Some [Dump d] \<Rightarrow> Inr d
      | _ \<Rightarrow> Inl (OtherError (ascii ''JSONDecodeError'')))"

text \<open>
  The configuration module is not part of the sources at hand. Its values, the entries of
  the language's \<^verbatim>\<open>lang_config\<close>, the Unicode tables and the texts that are only handed on
  (the system instructions, the notice that ends a degraded fragment, the log line) are
  parameters, gathered in one record.
\<close>

record env =
  chunk_overlap :: nat
  overlap_parting :: nat
  max_tokens_limit :: nat
  max_retries :: nat
  min_tokens :: nat
  default_temperature :: rat
  recovery_mode :: bool
  hebrew_ranges :: "(nat \<times> nat) list"
  multiplier :: rat
  asian_script :: bool
  language :: pstr
  title :: pstr
  system_text_of :: "bool \<Rightarrow> pstr \<Rightarrow> pstr \<Rightarrow> pstr"
  fragment_tail :: pstr
  log_entry :: "pstr \<times> pstr \<Rightarrow> message \<Rightarrow> pstr"
  unicode_isalnum :: "pchar \<Rightarrow> bool"
  unicode_lower :: "pstr \<Rightarrow> pstr"

text \<open>The world a run changes: the files, and the requests sent to the Generator so far.\<close>

record world =
  files :: files
  requests :: "request list"

section \<open>Chunk translation state machine (translator.translate_chunk)\<close>

text \<open>
  The local variables of \<^verbatim>\<open>translate_chunk\<close> that change during a run; \<open>saved\<close> is the
  dictionary \<^verbatim>\<open>saved_data\<close>. Logging, the pause before a request and the audible alerts
  are left out: they change none of these variables and none of the files below.
\<close>

record vars =
  max_tokens :: nat
  saved :: saved_data
  answer_start :: pstr
  chunk_translation :: pstr
  warning_message :: pstr
  leftover :: pstr
  conversation :: "(pstr \<times> pstr) option"
  token_count :: nat
  chunk_parts :: nat
  current_position :: nat
  chunk_end_position :: nat
  use_cache :: bool
  previous_context :: pstr
  prompt :: pstr
  assistant_answer :: pstr

text \<open>How a call of \<^verbatim>\<open>translate_chunk\<close> ends; the last case is the end of the given replies.\<close>

datatype outcome = Returned pstr bool | Raised py_exn | RepliesExhausted

subsection \<open>The texts\<close>

definition constant_instruction :: "bool \<Rightarrow> pstr" where
  "constant_instruction new_model =
     ascii ''Re-read <output-format> and <validation> requirements and verify strict compliance. Do not omit ANY content or HTML element, NOR replace <br> with line break. Do not stop mid-translation. NEVER truncate your answer before the end of the entire original text''
     @ (if new_model then ascii '', or end it with ANY comment.'' else ascii ''.'')"

definition progress_prompt :: "int \<Rightarrow> pstr \<Rightarrow> pstr" where
  "progress_prompt current_length prompt_context =
     ascii ''About '' @ show_nat (nat (max current_length 0))
     @ ascii '' characters were translated. End of previous translation: <context>''
     @ prompt_context
     @ ascii ''</context> Continue the translation exactly from where you left off. ''"

definition empty_warning :: pstr where
  "empty_warning = ascii ''Last time, you returned an empty answer. Do not repeat this mistake. DO NOT stop before the very last character of this HTML text''"

definition last_tags_warning :: "pstr \<Rightarrow> pstr" where
  "last_tags_warning tag = ascii '', NOR forget to include the last HTML tags in your answer. Your translation must end with '' @ tag"

definition hebrew_warning :: "pstr \<Rightarrow> pstr \<Rightarrow> pstr" where
  "hebrew_warning lang hebrew =
     ascii ''Last time, there was Hebrew inside your answer, instead of only '' @ lang
     @ ascii '': '' @ [34] @ ascii ''...'' @ hebrew @ ascii ''...'' @ [34]
     @ ascii ''. NEVER use hebrew letters in your answer. DO NOT repeat this mistake</warning>''"

definition join :: "pstr \<Rightarrow> pstr list \<Rightarrow> pstr" where
  "join sep ws = (case ws of [] \<Rightarrow> [] | w # rest \<Rightarrow> w @ concat (map (\<lambda>x. sep @ x) rest))"

definition repetition_warning :: "pstr list \<Rightarrow> pstr" where
  "repetition_warning repeating_words =
     ascii ''Content hallucination was detected in your previous answer. Within ~200 words, these appeared over 20 times each: ''
     @ join (ascii '', '') repeating_words
     @ ascii ''. This indicates severe repetition and loss of context. DO NOT repeat this mistake</warning>''"

definition text_only_warning :: pstr where
  "text_only_warning = ascii ''Last time you returned only text without HTML structure. ONLY stop answering at the end of the entire original text</warning>''"

definition mismatch_warning :: "mismatch \<Rightarrow> pstr" where
  "mismatch_warning e =
     (let original = (if is_html_tag (orig e) then simplify_tags (element (orig e)) else ascii ''text'');
          translated = (if is_html_tag (trans_tok e) then element (trans_tok e) else ascii ''text'')
      in ascii ''An HTML mismatch was detected in your previous answer, due to earlier omissions or alterations. Instead of ''
         @ original @ ascii '' there was '' @ translated
         @ ascii ''. Context up to and including mismatch: <original>'' @ original_context e
         @ ascii ''</original> <your-translation>'' @ translated_context e
         @ ascii ''</your-translation></warning> DO NOT repeat this mistake, NOR misplace any ''
         @ original @ ascii '' or '' @ translated @ ascii ''.'')"

definition last_attempt_warning :: "pstr \<Rightarrow> pstr \<Rightarrow> pstr" where
  "last_attempt_warning lang warning =
     (if warning \<noteq> [] \<and> \<not> contains warning (ascii ''<warning>'') then
        ascii '' <warning>ATTENTION: This is your last attempt to translate this section into ''
        @ lang @ ascii ''. '' @ warning
      else warning)"

text \<open>
  The degraded fragment: what is kept of the translation, the marker, and a tail (closing
  tags and a notice with a link) that is only handed on.
\<close>

definition degraded_fragment :: "env \<Rightarrow> pstr \<Rightarrow> pstr" where
  "degraded_fragment e kept =
     kept @ ascii '' '' @ [10] @ replicate 24 32
     @ ascii ''<incomplete-translation></incomplete-translation>'' @ fragment_tail e"

subsection \<open>One part and one attempt\<close>

text \<open>
  The head of the \<^verbatim>\<open>while\<close> body: the token budget moves halfway to the configured limit,
  and the prompt and the primer of the part are built. Dividing by a multiplier of zero
  raises.
\<close>

definition start_part :: "env \<Rightarrow> pstr \<Rightarrow> vars \<Rightarrow> py_exn + vars" where
  "start_part e hebrew_context v =
     (let v1 = v\<lparr>chunk_parts := chunk_parts v + 1,
                 max_tokens := (max_tokens_limit e + max_tokens v) div 2\<rparr>
      in if previous_context v \<noteq> [] then
           (let assistant_overlap = chunk_overlap e div overlap_parting e;
                answer = slice_from (previous_context v) (- int assistant_overlap);
                prompt_context = slice_to (previous_context v)
                                   (int assistant_overlap * (int (overlap_parting e) - 1))
            in if multiplier e = 0 then Inl ZeroDivisionError
               else Inr (v1\<lparr>assistant_answer := answer,
                          prompt := progress_prompt
                            (trunc ((if chunk_translation v \<noteq> []
                                     then of_int (int (length (chunk_translation v)) - int (length answer))
                                     else of_nat (length prompt_context)) / multiplier e)
                             + (if chunk_translation v \<noteq> []
                                then max (int (length hebrew_context) - 3) 0 else 0))
                            prompt_context\<rparr>))
         else Inr (v1\<lparr>prompt := [], assistant_answer := answer_start v\<rparr>))"

definition attempt_temperature :: "env \<Rightarrow> bool \<Rightarrow> nat \<Rightarrow> rat" where
  "attempt_temperature e problematic attempt =
     (if problematic then (if attempt = 0 then 0 else 1)
      else min (default_temperature e + 3 / 10 * of_nat attempt) 1)"

text \<open>
  From the reply to the answer that goes to the validator, or to the exception raised on
  the way, together with the warning that has been set by then.
\<close>

definition check_reply ::
  "env \<Rightarrow> chunk \<Rightarrow> token list \<Rightarrow> vars \<Rightarrow> message \<Rightarrow> (py_exn \<times> pstr) + pstr" where
  "check_reply e chunk html_structure v m =
     (let cleaned = (case content_text m of None \<Rightarrow> [] | Some reply_text \<Rightarrow> clean_answer reply_text)
      in if content_text m = None \<or> cleaned = [] then
           (case py_nth html_structure (int (chunk_end_position v) - 1) of
              Inl err \<Rightarrow> Inl (err, empty_warning)
            | Inr item \<Rightarrow>
                Inl (ValueError (ascii ''Empty Answer''),
                     if is_html_tag item then empty_warning @ last_tags_warning (element item)
                     else empty_warning))
         else
           (let started = (if previous_context v \<noteq> [] then [] else answer_start v) @ cleaned;
                answer = (if stop_reason m = ascii ''stop_sequence''
                          then started @ ascii ''</body>'' else started);
                hebrew_chars = contains_hebrew (hebrew_ranges e) answer
            in if hebrew_chars \<noteq> [] then
                 (let hebrew = slice answer (int (hd hebrew_chars) - 20) (int (hd hebrew_chars) + 20)
                  in Inl (ValueError (ascii ''Hebrew in translation: ...'' @ hebrew),
                          hebrew_warning (language e) hebrew))
               else
                 (case abnormal_repetitions (unicode_isalnum e) (unicode_lower e) answer
                         (asian_script e) 200 of
                    Inl err \<Rightarrow> Inl (err, warning_message v)
                  | Inr repeating_words \<Rightarrow>
                      if repeating_words \<noteq> [] then
                        Inl (ValueError (ascii ''abnormal_repetition detected''),
                             repetition_warning repeating_words)
                      else if \<not> has_tag answer \<and>
                              of_nat (length answer) < of_nat (length (snd chunk)) * multiplier e / 3 then
                        Inl (ValueError (ascii ''Cannot validate: Only text, No HTML''),
                             text_only_warning)
                      else Inr answer)))"

text \<open>
  \<^verbatim>\<open>Handle remaining structure elements\<close>: the condition under which the rest of the chunk's
  skeleton is added to the answer (there is a rest, it holds tags only, and the validator
  left no leftover), and the text \<^verbatim>\<open>last_tags\<close> that is added then.
\<close>

definition only_tags_remain :: "token list \<Rightarrow> pstr \<Rightarrow> bool" where
  "only_tags_remain structure_leftover rest \<longleftrightarrow>
     structure_leftover \<noteq> [] \<and> list_all is_html_tag structure_leftover \<and> rest = []"

definition last_tags :: "token list \<Rightarrow> pstr" where
  "last_tags structure_leftover = simplify_tags (concat (map element structure_leftover))"

text \<open>
  From the validator to the update of \<^verbatim>\<open>saved_data\<close>: the position and the leftover, the
  closing tags that are added when only tags remain, the partial-output file, the running
  translation and the in-memory checkpoint. An exception leaves what was assigned before it.
\<close>

definition accept_increment ::
  "chunk \<Rightarrow> pstr \<Rightarrow> token list \<Rightarrow> vars \<Rightarrow> files \<Rightarrow> message \<Rightarrow> pstr
     \<Rightarrow> (py_exn \<times> vars \<times> files) + (vars \<times> files)" where
  "accept_increment chunk destination_path html_structure v fs m answer =
     (case validate_html_structure html_structure answer (current_position v) (leftover v) of
        Inl err \<Rightarrow> Inl (err, v, fs)
      | Inr (pos, rest) \<Rightarrow>
          (let structure_leftover = slice html_structure (int pos) (int (chunk_end_position v));
               closing = only_tags_remain structure_leftover rest;
               answer' = (if closing then answer @ last_tags structure_leftover else answer);
               pos' = (if closing then chunk_end_position v else pos);
               fs' = write_piece fs (destination_path @ ascii ''.partial.html'') (Chars answer');
               translation = chunk_translation v @ remove_formatting answer';
               d = (saved v)\<lparr>sd_current_position := pos', sd_leftover := rest,
                               sd_chunk_end_position := chunk_end_position v\<rparr>;
               v1 = v\<lparr>current_position := pos', leftover := rest,
                        chunk_translation := translation,
                        token_count := token_count v + output_tokens m, saved := d\<rparr>
           in if Chunk (fst chunk) (snd chunk) \<notin> set (sd_chunks d) then
                Inr (v1\<lparr>saved := d\<lparr>sd_chunks := butlast (sd_chunks d) @ [Chunk (fst chunk) (snd chunk)],
                                      sd_translations := sd_translations d @ [translation]\<rparr>\<rparr>, fs')
              else if fst chunk < length (sd_translations d) then
                Inr (v1\<lparr>saved := d\<lparr>sd_translations := (sd_translations d)[fst chunk := translation]\<rparr>\<rparr>,
                     fs')
              else Inl (IndexError, v1, fs')))"

definition chunk_complete :: "message \<Rightarrow> vars \<Rightarrow> bool" where
  "chunk_complete m v \<longleftrightarrow>
     stop_reason m = ascii ''stop_sequence'' \<or>
     (current_position v = chunk_end_position v \<and> leftover v = []) \<or>
     (int (current_position v) = int (chunk_end_position v) - 1 \<and> leftover v \<noteq> [])"

text \<open>
  \<^verbatim>\<open>Save final state\<close>, as the file systems that follow one another: after the rename of an
  existing checkpoint to \<^verbatim>\<open>.old\<close>, after \<^verbatim>\<open>open(json_file, 'w')\<close>, and after the dump.
\<close>

definition save_final_state :: "files \<Rightarrow> pstr \<Rightarrow> saved_data \<Rightarrow> files list" where
  "save_final_state fs json_file d =
     (let fs1 = (if fs json_file \<noteq> None then rename_file fs json_file (json_file @ ascii ''.old'')
                 else fs);
          fs2 = open_for_writing fs1 json_file;
          fs3 = write_piece fs2 json_file (Dump (d\<lparr>sd_chunks := sd_chunks d @ [ChunkEnd]\<rparr>))
      in [fs1, fs2, fs3])"

text \<open>
  The \<^verbatim>\<open>except Exception as e\<close> block. \<open>Inl\<close> ends the call; \<open>Inr\<close> goes on to the next
  attempt. A structure mismatch is only raised after a reply, whose token count it reads.
\<close>

definition recover :: "env \<Rightarrow> pstr \<Rightarrow> vars \<Rightarrow> files \<Rightarrow> py_exn \<Rightarrow> outcome" where
  "recover e json_file v fs err =
     (if recovery_mode e \<and> (fs json_file \<noteq> None \<or> chunk_translation v \<noteq> []) then
        Returned (degraded_fragment e (if fs json_file \<noteq> None then [] else chunk_translation v)) True
      else Raised err)"

definition handle_exception ::
  "env \<Rightarrow> pstr \<Rightarrow> nat \<Rightarrow> py_exn \<Rightarrow> message option \<Rightarrow> vars \<Rightarrow> files \<Rightarrow> outcome + vars" where
  "handle_exception e json_file attempt err reply_message v fs =
     (if err = RateLimitError \<or> err = BadRequestError then
        Inl (Raised (RuntimeError (ascii ''!Stop!'')))
      else if int attempt \<ge> int (max_retries e) - 1 \<or> err = ValueError (ascii ''Empty Answer'')
              \<or> err = RuntimeError (ascii ''Stuck in a loop with LLM'') then
        Inl (recover e json_file v fs err)
      else
        (case err of
           StructureMismatch mm \<Rightarrow>
             (case reply_message of
                None \<Rightarrow> Inl (Raised UnboundLocalError)
              | Some m \<Rightarrow>
                  Inr (v\<lparr>max_tokens := nat (trunc (max (of_nat (output_tokens m) * ratio mm)
                                                         (of_nat (min_tokens e)))),
                         use_cache := True,
                         warning_message := last_attempt_warning (language e) (mismatch_warning mm)\<rparr>))
         | _ \<Rightarrow> Inr (v\<lparr>warning_message := last_attempt_warning (language e) (warning_message v)\<rparr>)))"

text \<open>
  What one pass through the \<^verbatim>\<open>try\<close> block does with a reply: \<open>Completed\<close> when the chunk is
  complete and its checkpoint written, \<open>Progress\<close> when the increment is accepted and the
  chunk is not complete, \<open>Failed\<close> with the exception, the reply if there was one, and the
  variables and files as the exception left them. The log line of a complete chunk divides
  the token count by the length of the chunk text, which raises for an empty chunk text.
\<close>

datatype step = Completed pstr files | Progress vars files | Failed py_exn "message option" vars files

definition try_reply ::
  "env \<Rightarrow> chunk \<Rightarrow> pstr \<Rightarrow> token list \<Rightarrow> vars \<Rightarrow> files \<Rightarrow> reply \<Rightarrow> step" where
  "try_reply e chunk destination_path html_structure v fs r =
     (case create_translation_message r of
        Inl err \<Rightarrow> Failed err None v fs
      | Inr m \<Rightarrow>
          (let fs1 = write_piece fs (destination_path @ ascii ''.txt'')
                       (Chars (log_entry e (the (conversation v)) m))
           in case check_reply e chunk html_structure v m of
                Inl (err, warning) \<Rightarrow> Failed err (Some m) (v\<lparr>warning_message := warning\<rparr>) fs1
              | Inr answer \<Rightarrow>
                  (case accept_increment chunk destination_path html_structure v fs1 m answer of
                     Inl (err, v', fs2) \<Rightarrow> Failed err (Some m) v' fs2
                   | Inr (v', fs2) \<Rightarrow>
                       if chunk_complete m v' then
                         (if snd chunk = [] then Failed ZeroDivisionError (Some m) v' fs2
                          else Completed (chunk_translation v')
                                 (last (save_final_state fs2 (destination_path @ ascii ''.json'')
                                          (saved v'))))
                       else Progress v' fs2)))"

subsection \<open>The loops\<close>

text \<open>
  The \<^verbatim>\<open>for attempt in range(max_retries)\<close> loop inside the \<^verbatim>\<open>while\<close> loop, as one recursion
  over the replies of the Generator. An attempt first compares its conversation with the
  previous one and raises when they are equal; otherwise it sends the request and takes
  the next reply. After progress a new part starts with attempt 0; after a handled
  exception the next attempt follows, and when the attempts are used up the function
  returns the empty string.
\<close>

function (sequential) attempt_loop ::
  "env \<Rightarrow> chunk \<Rightarrow> pstr \<Rightarrow> pstr \<Rightarrow> token list \<Rightarrow> bool \<Rightarrow> bool \<Rightarrow> nat \<Rightarrow> vars \<Rightarrow> world
     \<Rightarrow> reply list \<Rightarrow> outcome \<times> world" where
  "attempt_loop e chunk hebrew_context destination_path html_structure problematic new_model
      attempt v w [] =
     (if conversation v
           = Some (prompt v @ constant_instruction new_model @ warning_message v, assistant_answer v) then
        (case handle_exception e (destination_path @ ascii ''.json'') attempt
                (RuntimeError (ascii ''Stuck in a loop with LLM'')) None v (files w) of
           Inl result \<Rightarrow> (result, w)
         | Inr v' \<Rightarrow>
             if Suc attempt < max_retries e then
               attempt_loop e chunk hebrew_context destination_path html_structure problematic
                 new_model (Suc attempt) v' w []
             else (Returned [] True, w))
      else (RepliesExhausted, w))"
| "attempt_loop e chunk hebrew_context destination_path html_structure problematic new_model
      attempt v w (r # replies) =
     (if conversation v
           = Some (prompt v @ constant_instruction new_model @ warning_message v, assistant_answer v) then
        (case handle_exception e (destination_path @ ascii ''.json'') attempt
                (RuntimeError (ascii ''Stuck in a loop with LLM'')) None v (files w) of
           Inl result \<Rightarrow> (result, w)
         | Inr v' \<Rightarrow>
             if Suc attempt < max_retries e then
               attempt_loop e chunk hebrew_context destination_path html_structure problematic
                 new_model (Suc attempt) v' w (r # replies)
             else (Returned [] True, w))
      else
        (let v1 = v\<lparr>conversation :=
                      Some (prompt v @ constant_instruction new_model @ warning_message v,
                            assistant_answer v)\<rparr>;
             sent = requests w @
                [\<lparr>rq_system_text = system_text_of e new_model hebrew_context (snd chunk),
                   rq_prompt = prompt v @ constant_instruction new_model @ warning_message v,
                   rq_assistant_answer = assistant_answer v,
                   rq_max_tokens = max_tokens v,
                   rq_temperature = attempt_temperature e problematic attempt,
                   rq_use_cache = use_cache v,
                   rq_new_model = new_model\<rparr>]
         in case try_reply e chunk destination_path html_structure v1 (files w) r of
              Completed translation fs \<Rightarrow> (Returned translation False, \<lparr>files = fs, requests = sent\<rparr>)
            | Progress v' fs \<Rightarrow>
                (case start_part e hebrew_context
                        (v'\<lparr>previous_context :=
                               slice_from (chunk_translation v') (- int (chunk_overlap e)),
                             answer_start := [], warning_message := []\<rparr>) of
                   Inl err \<Rightarrow> (Raised err, \<lparr>files = fs, requests = sent\<rparr>)
                 | Inr v'' \<Rightarrow>
                     attempt_loop e chunk hebrew_context destination_path html_structure
                       problematic new_model 0 v'' \<lparr>files = fs, requests = sent\<rparr> replies)
            | Failed err reply_message v' fs \<Rightarrow>
                (case handle_exception e (destination_path @ ascii ''.json'') attempt err
                        reply_message v' fs of
                   Inl result \<Rightarrow> (result, \<lparr>files = fs, requests = sent\<rparr>)
                 | Inr v'' \<Rightarrow>
                     if Suc attempt < max_retries e then
                       attempt_loop e chunk hebrew_context destination_path html_structure
                         problematic new_model (Suc attempt) v'' \<lparr>files = fs, requests = sent\<rparr>
                         replies
                     else (Returned [] True, \<lparr>files = fs, requests = sent\<rparr>))))"
  by pat_completeness auto

termination
  by (relation "inv_image (less_than <*lex*> less_than)
        (\<lambda>(e, chunk, hebrew_context, destination_path, html_structure, problematic, new_model,
            attempt, v, w, replies). (length replies, max_retries e - attempt))")
     auto

subsection \<open>The function\<close>

definition initial_vars :: "env \<Rightarrow> pstr \<Rightarrow> bool \<Rightarrow> vars" where
  "initial_vars e previous problematic =
     \<lparr>max_tokens = max_tokens_limit e,
      saved = \<lparr>sd_chunks = [], sd_translations = [], sd_current_position = 0, sd_leftover = [],
                sd_chunk_end_position = 0\<rparr>,
      answer_start = ascii ''<body><div><a>'' @ title e @ ascii ''</a></div><'',
      chunk_translation = [], warning_message = [], leftover = [], conversation = None,
      token_count = 0, chunk_parts = 0, current_position = 0, chunk_end_position = 0,
      use_cache = problematic, previous_context = previous, prompt = [], assistant_answer = []\<rparr>"

text \<open>
  The \<^verbatim>\<open>while attempt < max_retries - 1\<close> loop is entered with \<^verbatim>\<open>attempt = -1\<close>: its body
  runs when there is at least one retry, otherwise the function returns the empty string.
\<close>

definition enter_loop ::
  "env \<Rightarrow> chunk \<Rightarrow> pstr \<Rightarrow> pstr \<Rightarrow> token list \<Rightarrow> bool \<Rightarrow> bool \<Rightarrow> vars \<Rightarrow> world
     \<Rightarrow> reply list \<Rightarrow> outcome \<times> world" where
  "enter_loop e chunk hebrew_context destination_path html_structure problematic new_model v w
      replies =
     (if max_retries e = 0 then (Returned [] True, w)
      else
        (case start_part e hebrew_context v of
           Inl err \<Rightarrow> (Raised err, w)
         | Inr v' \<Rightarrow>
             attempt_loop e chunk hebrew_context destination_path html_structure problematic
               new_model 0 v' w replies))"

text \<open>
  \<^verbatim>\<open>translate_chunk\<close>. With a checkpoint file, a chunk that the checkpoint lists, and not
  as its last entry, is answered from the checkpoint; a chunk listed last is continued from
  the saved position. The quotient of the two overlap settings is computed first and raises
  when the divisor is zero.
\<close>

definition translate_chunk ::
  "env \<Rightarrow> chunk \<Rightarrow> pstr \<Rightarrow> pstr \<Rightarrow> pstr \<Rightarrow> token list \<Rightarrow> bool \<Rightarrow> bool \<Rightarrow> world
     \<Rightarrow> reply list \<Rightarrow> outcome \<times> world" where
  "translate_chunk e chunk previous hebrew_context destination_path html_structure problematic
      new_model w replies =
     (let json_file = destination_path @ ascii ''.json'';
          v = initial_vars e previous problematic;
          fresh_end = length (extract_html_structure (snd chunk))
      in if overlap_parting e = 0 then (Raised ZeroDivisionError, w)
         else if files w json_file \<noteq> None then
           (case json_load (files w) json_file of
              Inl err \<Rightarrow> (Raised err, w)
            | Inr d \<Rightarrow>
                (let v1 = v\<lparr>answer_start := [], saved := d,
                             current_position := sd_current_position d,
                             leftover := sd_leftover d\<rparr>
                 in if Chunk (fst chunk) (snd chunk) \<in> set (sd_chunks d) then
                      (case py_nth (sd_translations d) (int (fst chunk)) of
                         Inl err \<Rightarrow> (Raised err, w)
                       | Inr translation \<Rightarrow>
                           if Chunk (fst chunk) (snd chunk) \<noteq> last (sd_chunks d) then
                             (Returned translation problematic, w)
                           else
                             enter_loop e chunk hebrew_context destination_path html_structure
                               problematic new_model
                               (v1\<lparr>chunk_translation := translation,
                                    chunk_end_position :=
                                      (if translation = [] then fresh_end + sd_current_position d
                                       else sd_chunk_end_position d),
                                    previous_context :=
                                      slice_from (previous @ translation) (- int (chunk_overlap e))\<rparr>)
                               w replies)
                    else
                      enter_loop e chunk hebrew_context destination_path html_structure
                        problematic new_model
                        (v1\<lparr>chunk_end_position := fresh_end + sd_current_position d\<rparr>) w replies))
         else
           enter_loop e chunk hebrew_context destination_path html_structure problematic
             new_model (v\<lparr>chunk_end_position := fresh_end\<rparr>) w replies)"

section \<open>The run over the documents (translator.translate_website)\<close>

text \<open>
  The \<^verbatim>\<open>except Exception as error\<close> block of the loop over the files, which receives what
  \<^verbatim>\<open>translate_html_file\<close> lets through from \<^verbatim>\<open>translate_chunk\<close>: an error whose text holds
  \<^verbatim>\<open>!Stop!\<close> ends the run; any other error is counted, and the run goes on with the next file
  unless the count is too high. The texts of the built-in exceptions do not hold the mark.
  The count of processed files grows after the block, and the audible alert is left out.
\<close>

definition says_stop :: "py_exn \<Rightarrow> bool" where
  "says_stop err =
     (case err of
        ValueError what \<Rightarrow> contains what (ascii ''!Stop!'')
      | RuntimeError what \<Rightarrow> contains what (ascii ''!Stop!'')
      | OtherError what \<Rightarrow> contains what (ascii ''!Stop!'')
      | _ \<Rightarrow> False)"

datatype verdict = RunAborted py_exn | TooManyErrors nat | NextFile nat

definition after_file_failure :: "py_exn \<Rightarrow> nat \<Rightarrow> nat \<Rightarrow> verdict" where
  "after_file_failure err error_count files_processed =
     (if says_stop err then RunAborted err
      else if error_count + 1 > max (files_processed div 8) 4 then TooManyErrors (error_count + 1)
      else NextFile (error_count + 1))"

section \<open>A sample configuration and document\<close>

text \<open>
  A configuration for the runs below: three retries, no recovery, the Hebrew block as the
  disallowed range, the ASCII tables, and short texts where the texts are only handed on.
\<close>

definition sample_env :: env where
  "sample_env =
     \<lparr>chunk_overlap = 200, overlap_parting = 4, max_tokens_limit = 4000, max_retries = 3,
      min_tokens = 500, default_temperature = 0, recovery_mode = False,
      hebrew_ranges = [(1424, 1535)], multiplier = 1, asian_script = False,
      language = ascii ''French'', title = ascii ''Site'',
      system_text_of = (\<lambda>new_model hebrew_context chunk_text. hebrew_context @ chunk_text),
      fragment_tail = ascii ''</body>'',
      log_entry = (\<lambda>conv m. fst conv),
      unicode_isalnum = ascii_isalnum, unicode_lower = ascii_lower\<rparr>"

text \<open>
  A body of one chunk, with its skeleton, and two replies: the first stops after the first
  paragraph, the second delivers the rest and ends at the stop sequence.
\<close>

definition sample_body :: pstr where
  "sample_body = ascii ''<body><div><a>Site</a></div><p>one</p><p>two</p>''"

definition first_reply :: message where
  "first_reply = \<lparr>content_text = Some (ascii ''p>un</p>''), stop_reason = ascii ''max_tokens'',
                   output_tokens = 5\<rparr>"

definition second_reply :: message where
  "second_reply = \<lparr>content_text = Some (ascii ''<p>deux</p>''), stop_reason = ascii ''end_turn'',
                    output_tokens = 5\<rparr>"

definition no_files :: files where
  "no_files = (\<lambda>path. None)"

text \<open>
  A checkpoint on disk with one complete chunk, and the dictionary that the state machine
  holds when the second chunk is complete.
\<close>

definition sample_checkpoint :: saved_data where
  "sample_checkpoint =
     \<lparr>sd_chunks = [Chunk 0 (ascii ''<p>one</p>''), ChunkEnd],
      sd_translations = [ascii ''<p>un</p>''],
      sd_current_position = 3, sd_leftover = [], sd_chunk_end_position = 3\<rparr>"

definition sample_update :: saved_data where
  "sample_update =
     \<lparr>sd_chunks = [Chunk 0 (ascii ''<p>one</p>''), Chunk 1 (ascii ''<p>two</p>'')],
      sd_translations = [ascii ''<p>un</p>'', ascii ''<p>deux</p>''],
      sd_current_position = 6, sd_leftover = [], sd_chunk_end_position = 6\<rparr>"

definition checkpointed_files :: files where
  "checkpointed_files = no_files(ascii ''out/a.json'' \<mapsto> [Dump sample_checkpoint])"

text \<open>
  The variables with which the first attempt on the sample body sends its request, and a
  reply that delivers the whole body at once.
\<close>

definition sample_vars :: vars where
  "sample_vars =
     (initial_vars sample_env [] False)
       \<lparr>chunk_end_position := 12, max_tokens := 4000, chunk_parts := 1,
        assistant_answer := ascii ''<body><div><a>Site</a></div><'',
        conversation := Some (constant_instruction True, ascii ''<body><div><a>Site</a></div><'')\<rparr>"

definition whole_reply :: message where
  "whole_reply = \<lparr>content_text = Some (ascii ''p>un</p><p>deux</p>''), stop_reason = ascii ''end_turn'',
                   output_tokens = 9\<rparr>"

section \<open>Properties of the tokenizer\<close>

text \<open>The definitions a concrete run unfolds.\<close>

lemmas eval_defs = ascii_def LT_def GT_def isspace_def lstrip_def rstrip_def strip_def
  startswith_def endswith_def clip_def slice_to_def slice_from_def slice_def occurs_at_def
  str_find_def str_rfind_def mk_token_def extract_html_structure_def truncate_str_def
  tag_name_def tokens_differ_def mismatch_error_def trailing_text_def next_leftover_def
  skip_pair_def validate_html_structure_def set_chunk_text_def split_chunks_def move_back_def
  move_forward_def adjust_chunks_def str_replace_def remove_formatting_def
  blank_punctuation_def split_words_def word_list_def Counter_def repeated_words_def
  window_starts_def abnormal_repetitions_def ascii_isalnum_def ascii_lower_def
  contains_def py_nth_def trunc_def name_char_def has_tag_def extract_test_def comment_tail_def
  clean_answer_def create_translation_message_def rename_file_def open_for_writing_def
  write_piece_def json_load_def constant_instruction_def progress_prompt_def empty_warning_def
  last_tags_warning_def hebrew_warning_def join_def repetition_warning_def text_only_warning_def
  mismatch_warning_def last_attempt_warning_def degraded_fragment_def start_part_def
  attempt_temperature_def check_reply_def only_tags_remain_def last_tags_def
  accept_increment_def chunk_complete_def
  save_final_state_def recover_def handle_exception_def try_reply_def initial_vars_def
  enter_loop_def translate_chunk_def says_stop_def after_file_failure_def contains_hebrew_def
  sample_env_def sample_body_def first_reply_def second_reply_def no_files_def
  sample_checkpoint_def sample_update_def checkpointed_files_def sample_vars_def whole_reply_def
  Let_def

lemma dropWhile_GT_split:
  assumes "dropWhile (\<lambda>x. x \<noteq> GT) cs \<noteq> []"
  shows "takeWhile (\<lambda>x. x \<noteq> GT) cs @ GT # tl (dropWhile (\<lambda>x. x \<noteq> GT) cs) = cs"
proof -
  have "hd (dropWhile (\<lambda>x. x \<noteq> GT) cs) = GT"
    using hd_dropWhile [OF assms] by simp
  then have "dropWhile (\<lambda>x. x \<noteq> GT) cs = GT # tl (dropWhile (\<lambda>x. x \<noteq> GT) cs)"
    using assms by (cases "dropWhile (\<lambda>x. x \<noteq> GT) cs") auto
  then show ?thesis
    using takeWhile_dropWhile_id [of "\<lambda>x. x \<noteq> GT" cs] by metis
qed

lemma well_tagged_append: "well_tagged (xs @ ys) \<Longrightarrow> well_tagged ys"
  by (induction xs) auto

lemma well_tagged_dropWhile: "well_tagged cs \<Longrightarrow> well_tagged (dropWhile P cs)"
  using well_tagged_append [of "takeWhile P cs" "dropWhile P cs"] by simp

lemma well_tagged_tl: "well_tagged cs \<Longrightarrow> well_tagged (tl cs)"
  by (cases cs) auto

lemma element_tokens:
  "map element (extract_html_structure s) = filter (\<lambda>x. strip x \<noteq> []) (map fst (finditer s 0))"
  by (simp add: extract_html_structure_def mk_token_def filter_map comp_def)


lemma opens_tag_iff:
  "opens_tag (c # cs) \<longleftrightarrow>
     c = LT \<and> takeWhile (\<lambda>x. x \<noteq> GT) cs \<noteq> [] \<and> dropWhile (\<lambda>x. x \<noteq> GT) cs \<noteq> []"
proof -
  have a: "takeWhile (\<lambda>x. x \<noteq> GT) cs \<noteq> [] \<longleftrightarrow> cs \<noteq> [] \<and> hd cs \<noteq> GT"
    by (cases cs) auto
  have b: "dropWhile (\<lambda>x. x \<noteq> GT) cs \<noteq> [] \<longleftrightarrow> GT \<in> set cs"
    by (auto simp add: dropWhile_eq_Nil_conv)
  show ?thesis by (simp add: a b)
qed

lemma finditer_segmentation:
  "\<exists>segs. segmentation s segs \<and> concat segs = s \<and>
          map fst (finditer s pos) = filter (\<lambda>x. x \<noteq> [LT]) segs \<and>
          (well_tagged s \<longrightarrow> [LT] \<notin> set segs)"
proof (induction s pos rule: finditer.induct)
  case (1 pos)
  have "segmentation [] [] \<and> concat [] = ([]::pstr) \<and>
        map fst (finditer [] pos) = filter (\<lambda>x. x \<noteq> [LT]) [] \<and>
        (well_tagged [] \<longrightarrow> [LT] \<notin> set [])" by simp
  then show ?case by blast
next
  case (2 c cs pos)
  let ?body = "takeWhile (\<lambda>x. x \<noteq> GT) cs"
  let ?rest = "dropWhile (\<lambda>x. x \<noteq> GT) cs"
  show ?case
  proof (cases "c = LT")
    case True
    show ?thesis
    proof (cases "?body \<noteq> [] \<and> ?rest \<noteq> []")
      case tag: True
      from "2.IH"(1) [OF True tag] obtain segs where
        segs: "segmentation (tl ?rest) segs" "concat segs = tl ?rest"
          "map fst (finditer (tl ?rest) (pos + length ?body + 2)) = filter (\<lambda>x. x \<noteq> [LT]) segs"
          "well_tagged (tl ?rest) \<longrightarrow> [LT] \<notin> set segs"
        by blast
      let ?seg = "c # ?body @ [GT]"
      have split: "c # cs = ?seg @ tl ?rest"
        using dropWhile_GT_split [of cs] tag by simp
      have o: "opens_tag (c # cs)" using True tag by (simp only: opens_tag_iff simp_thms)
      have "GT \<notin> set ?body" by (auto dest: set_takeWhileD)
      then have g: "last ?seg = GT \<and> GT \<notin> set (butlast ?seg)"
        using True by (simp add: butlast_append LT_def GT_def)
      have t: "take (length ?seg) (c # cs) = ?seg" "drop (length ?seg) (c # cs) = tl ?rest"
        by (subst split, simp)+
      have "segmentation (c # cs) (?seg # segs)"
        unfolding segmentation.simps t using o g segs(1) by simp
      moreover have "concat (?seg # segs) = c # cs"
        using segs(2) split by simp
      moreover have "map fst (finditer (c # cs) pos) = filter (\<lambda>x. x \<noteq> [LT]) (?seg # segs)"
        using True tag segs(3) by simp
      moreover have "well_tagged (c # cs) \<longrightarrow> [LT] \<notin> set (?seg # segs)"
        using segs(4) by (simp add: well_tagged_dropWhile well_tagged_tl)
      ultimately show ?thesis by blast
    next
      case skip: False
      from "2.IH"(2) [OF True skip] obtain segs where
        segs: "segmentation cs segs" "concat segs = cs"
          "map fst (finditer cs (pos + 1)) = filter (\<lambda>x. x \<noteq> [LT]) segs"
        by blast
      have o: "\<not> opens_tag (c # cs)" using skip by (simp only: opens_tag_iff simp_thms)
      have "segmentation (c # cs) ([LT] # segs)"
        using o True segs(1) by (simp del: opens_tag.simps)
      moreover have "concat ([LT] # segs) = c # cs" using segs(2) True by simp
      moreover have "map fst (finditer (c # cs) pos) = filter (\<lambda>x. x \<noteq> [LT]) ([LT] # segs)"
        using True skip segs(3) by auto
      moreover have "well_tagged (c # cs) \<longrightarrow> [LT] \<notin> set ([LT] # segs)"
      proof
        assume "well_tagged (c # cs)"
        with True have "?body \<noteq> [] \<and> ?rest \<noteq> []" by (simp only: well_tagged.simps simp_thms)
        with skip show "[LT] \<notin> set ([LT] # segs)" by blast
      qed
      ultimately show ?thesis by blast
    qed
  next
    case False
    let ?run = "takeWhile (\<lambda>x. x \<noteq> LT) cs"
    let ?tail = "dropWhile (\<lambda>x. x \<noteq> LT) cs"
    from "2.IH"(3) [OF False] obtain segs where
      segs: "segmentation ?tail segs" "concat segs = ?tail"
        "map fst (finditer ?tail (pos + 1 + length ?run)) = filter (\<lambda>x. x \<noteq> [LT]) segs"
        "well_tagged ?tail \<longrightarrow> [LT] \<notin> set segs"
      by blast
    let ?seg = "c # ?run"
    have split: "c # cs = ?seg @ ?tail" by simp
    have o: "\<not> opens_tag (c # cs)" using False by simp
    have "take (length ?run) cs = ?run" by (rule takeWhile_eq_take [symmetric])
    moreover have "drop (length ?run) cs = ?tail" by (rule dropWhile_eq_drop [symmetric])
    ultimately have t: "take (length ?seg) (c # cs) = ?seg" "drop (length ?seg) (c # cs) = ?tail"
      by simp_all
    have "LT \<notin> set ?run" by (auto dest: set_takeWhileD)
    then have n: "LT \<notin> set ?seg" using False by simp
    have e: "?tail = [] \<or> hd ?tail = LT"
      using hd_dropWhile [of "\<lambda>x. x \<noteq> LT" cs] by auto
    have "segmentation (c # cs) (?seg # segs)"
      unfolding segmentation.simps t using o False n e segs(1) by simp
    moreover have "concat (?seg # segs) = c # cs" using segs(2) by simp
    moreover have "map fst (finditer (c # cs) pos) = filter (\<lambda>x. x \<noteq> [LT]) (?seg # segs)"
      using False segs(3) by simp
    moreover have "well_tagged (c # cs) \<longrightarrow> [LT] \<notin> set (?seg # segs)"
      using segs(4) False by (auto simp add: well_tagged_dropWhile)
    ultimately show ?thesis by blast
  qed
qed

lemma first_segment:
  assumes "segmentation s (x # a)"
  shows "x = (if opens_tag s then LT # takeWhile (\<lambda>c. c \<noteq> GT) (tl s) @ [GT]
              else if hd s = LT then [LT] else takeWhile (\<lambda>c. c \<noteq> LT) s)"
proof -
  from assms have x: "x \<noteq> []" "take (length x) s = x" by simp_all
  then obtain r where s: "s = x @ r" by (metis append_take_drop_id)
  show ?thesis
  proof (cases "opens_tag s")
    case True
    with assms have g: "last x = GT" "GT \<notin> set (butlast x)" by simp_all
    from True s x(1) have h: "hd x = LT" by (cases s; cases x) auto
    with g(1) x(1) have "butlast x \<noteq> []"
      by (cases x) (auto simp add: LT_def GT_def split: if_splits)
    with h have b: "butlast x = LT # tl (butlast x)"
      by (cases x) (auto split: if_splits)
    have xx: "x = LT # tl (butlast x) @ [GT]"
      using append_butlast_last_id [OF x(1)] g(1) b by (metis append_Cons)
    from g(2) b have n: "GT \<notin> set (tl (butlast x))" by (metis list.set_intros(2))
    have "tl s = tl (butlast x) @ GT # r"
      by (subst s, subst xx) simp
    then have "takeWhile (\<lambda>c. c \<noteq> GT) (tl s) = tl (butlast x)"
      using n by (auto simp add: takeWhile_tail)
    with xx True show ?thesis by simp
  next
    case False
    show ?thesis
    proof (cases "hd s = LT")
      case True
      with False assms show ?thesis by simp
    next
      case run: False
      with False assms have n: "LT \<notin> set x" and e: "drop (length x) s = [] \<or> hd (drop (length x) s) = LT"
        by simp_all
      from s have "drop (length x) s = r" by simp
      with e have tw: "takeWhile (\<lambda>c. c \<noteq> LT) r = []" by (cases r) auto
      have "takeWhile (\<lambda>c. c \<noteq> LT) (x @ r) = x @ takeWhile (\<lambda>c. c \<noteq> LT) r"
      proof (rule takeWhile_append2)
        fix c assume "c \<in> set x" with n show "c \<noteq> LT" by blast
      qed
      then have "takeWhile (\<lambda>c. c \<noteq> LT) s = x" unfolding tw s [symmetric] by simp
      with False run show ?thesis by simp
    qed
  qed
qed

lemma segmentation_unique:
  "segmentation s a \<Longrightarrow> segmentation s b \<Longrightarrow> a = b"
proof (induction a arbitrary: s b)
  case Nil
  then show ?case by (cases b) auto
next
  case (Cons x a)
  from Cons.prems(1) have "s \<noteq> []" by auto
  with Cons.prems(2) obtain y b' where b: "b = y # b'" by (cases b) auto
  from first_segment [OF Cons.prems(1)] first_segment [OF Cons.prems(2) [unfolded b]]
  have "x = y" by simp
  moreover from Cons.prems(1) have "segmentation (drop (length x) s) a" by simp
  moreover from Cons.prems(2) b have "segmentation (drop (length y) s) b'" by simp
  ultimately show ?case using Cons.IH [of "drop (length x) s" b'] b by simp
qed

lemma strip_empty: "strip x = [] \<longleftrightarrow> (\<forall>c\<in>set x. isspace c)"
proof -
  have "dropWhile isspace (rev (dropWhile isspace x)) = [] \<longleftrightarrow> dropWhile isspace x = []"
  proof
    assume a: "dropWhile isspace (rev (dropWhile isspace x)) = []"
    show "dropWhile isspace x = []"
    proof (rule ccontr)
      assume n: "dropWhile isspace x \<noteq> []"
      then have "\<not> isspace (hd (dropWhile isspace x))" by (rule hd_dropWhile)
      moreover from n have "hd (dropWhile isspace x) \<in> set (rev (dropWhile isspace x))" by simp
      ultimately show False using a by (auto simp add: dropWhile_eq_Nil_conv)
    qed
  next
    assume d: "dropWhile isspace x = []"
    show "dropWhile isspace (rev (dropWhile isspace x)) = []"
      unfolding d by simp
  qed
  moreover have "strip x = [] \<longleftrightarrow> dropWhile isspace (rev (dropWhile isspace x)) = []"
    by (simp add: strip_def lstrip_def rstrip_def)
  moreover have "dropWhile isspace x = [] \<longleftrightarrow> (\<forall>c\<in>set x. isspace c)"
    by (rule dropWhile_eq_Nil_conv)
  ultimately show ?thesis by blast
qed

lemma nonspace_of_tokens:
  "filter (\<lambda>c. \<not> isspace c) (concat (filter (\<lambda>x. strip x \<noteq> [] \<and> Q x) segs))
     = filter (\<lambda>c. \<not> isspace c) (concat (filter Q segs))"
proof (induction segs)
  case Nil
  then show ?case by simp
next
  case (Cons x segs)
  have "strip x = [] \<Longrightarrow> filter (\<lambda>c. \<not> isspace c) x = []"
    by (simp add: strip_empty filter_empty_conv)
  with Cons show ?case by auto
qed

text \<open>
  Claim C7 (tokenizer round-trip), as the code has it. Every string has a list of segments,
  and for the list of its segments: the concatenation of the segments is the string, and
  the token texts are exactly the segments, in order, that are neither whitespace-only nor a
  lone \<^verbatim>\<open><\<close>, which is a \<^verbatim>\<open><\<close> that opens no tag. So the characters other than whitespace of
  the concatenated tokens are those of the string without the \<^verbatim>\<open><\<close> characters that open
  no tag. When every \<^verbatim>\<open><\<close> of the string opens a tag, no segment is a lone \<^verbatim>\<open><\<close>, the tokens
  are the segments that are not whitespace-only, and the concatenated tokens have all the
  characters of the string other than whitespace.
\<close>

theorem tokenizer_roundtrip:
  "(\<exists>segs. segmentation s segs) \<and>
   (segmentation s segs \<longrightarrow>
      concat segs = s \<and>
      map element (extract_html_structure s) = filter (\<lambda>x. strip x \<noteq> [] \<and> x \<noteq> [LT]) segs \<and>
      filter (\<lambda>c. \<not> isspace c) (concat (map element (extract_html_structure s)))
        = filter (\<lambda>c. \<not> isspace c) (concat (filter (\<lambda>x. x \<noteq> [LT]) segs)) \<and>
      (well_tagged s \<longrightarrow>
         [LT] \<notin> set segs \<and>
         map element (extract_html_structure s) = filter (\<lambda>x. strip x \<noteq> []) segs \<and>
         filter (\<lambda>c. \<not> isspace c) (concat (map element (extract_html_structure s)))
           = filter (\<lambda>c. \<not> isspace c) s))"
proof (rule conjI)
  from finditer_segmentation [of s 0] show "\<exists>segs. segmentation s segs" by blast
next
  show "segmentation s segs \<longrightarrow>
      concat segs = s \<and>
      map element (extract_html_structure s) = filter (\<lambda>x. strip x \<noteq> [] \<and> x \<noteq> [LT]) segs \<and>
      filter (\<lambda>c. \<not> isspace c) (concat (map element (extract_html_structure s)))
        = filter (\<lambda>c. \<not> isspace c) (concat (filter (\<lambda>x. x \<noteq> [LT]) segs)) \<and>
      (well_tagged s \<longrightarrow>
         [LT] \<notin> set segs \<and>
         map element (extract_html_structure s) = filter (\<lambda>x. strip x \<noteq> []) segs \<and>
         filter (\<lambda>c. \<not> isspace c) (concat (map element (extract_html_structure s)))
           = filter (\<lambda>c. \<not> isspace c) s)"
  proof (rule impI)
    assume seg: "segmentation s segs"
    from finditer_segmentation [of s 0] obtain segs' where
      s': "segmentation s segs'" "concat segs' = s"
        "map fst (finditer s 0) = filter (\<lambda>x. x \<noteq> [LT]) segs'"
        "well_tagged s \<longrightarrow> [LT] \<notin> set segs'"
      by blast
    from seg s'(1) have eq: "segs' = segs" by (rule segmentation_unique [symmetric])
    note f = s'(2-4) [unfolded eq]
    have tokens: "map element (extract_html_structure s)
        = filter (\<lambda>x. strip x \<noteq> [] \<and> x \<noteq> [LT]) segs"
      by (simp add: element_tokens f(2) conj_commute)
    have chars: "filter (\<lambda>c. \<not> isspace c) (concat (map element (extract_html_structure s)))
        = filter (\<lambda>c. \<not> isspace c) (concat (filter (\<lambda>x. x \<noteq> [LT]) segs))"
      unfolding tokens by (rule nonspace_of_tokens)
    have tagged: "[LT] \<notin> set segs \<and>
         map element (extract_html_structure s) = filter (\<lambda>x. strip x \<noteq> []) segs \<and>
         filter (\<lambda>c. \<not> isspace c) (concat (map element (extract_html_structure s)))
           = filter (\<lambda>c. \<not> isspace c) s" if "well_tagged s"
    proof -
      from that f(3) have n: "[LT] \<notin> set segs" by blast
      then have all: "filter (\<lambda>x. x \<noteq> [LT]) segs = segs"
        by (simp add: filter_id_conv) blast
      have "filter (\<lambda>x. strip x \<noteq> [] \<and> x \<noteq> [LT]) segs = filter (\<lambda>x. strip x \<noteq> []) segs"
        using n by (intro filter_cong) auto
      with tokens chars n all f(1) show ?thesis by simp
    qed
    from f(1) tokens chars tagged show "concat segs = s \<and>
      map element (extract_html_structure s) = filter (\<lambda>x. strip x \<noteq> [] \<and> x \<noteq> [LT]) segs \<and>
      filter (\<lambda>c. \<not> isspace c) (concat (map element (extract_html_structure s)))
        = filter (\<lambda>c. \<not> isspace c) (concat (filter (\<lambda>x. x \<noteq> [LT]) segs)) \<and>
      (well_tagged s \<longrightarrow>
         [LT] \<notin> set segs \<and>
         map element (extract_html_structure s) = filter (\<lambda>x. strip x \<noteq> []) segs \<and>
         filter (\<lambda>c. \<not> isspace c) (concat (map element (extract_html_structure s)))
           = filter (\<lambda>c. \<not> isspace c) s)"
      by blast
  qed
qed

text \<open>
  Two runs of the theorem: on well-formed markup, where only the whitespace-only segment is
  missing from the tokens, and on markup that ends in a \<^verbatim>\<open><\<close> that opens no tag, which is
  missing as well.
\<close>

theorem tokenizer_roundtrip_witness:
  "well_tagged (ascii ''<p>Hi <b>x</b> </p>'') \<and>
   segmentation (ascii ''<p>Hi <b>x</b> </p>'')
     [ascii ''<p>'', ascii ''Hi '', ascii ''<b>'', ascii ''x'', ascii ''</b>'', ascii '' '',
      ascii ''</p>''] \<and>
   map element (extract_html_structure (ascii ''<p>Hi <b>x</b> </p>''))
     = [ascii ''<p>'', ascii ''Hi '', ascii ''<b>'', ascii ''x'', ascii ''</b>'', ascii ''</p>''] \<and>
   filter (\<lambda>c. \<not> isspace c)
       (concat (map element (extract_html_structure (ascii ''<p>Hi <b>x</b> </p>''))))
     = filter (\<lambda>c. \<not> isspace c) (ascii ''<p>Hi <b>x</b> </p>'') \<and>
   segmentation (ascii ''<p>x</p><b'')
     [ascii ''<p>'', ascii ''x'', ascii ''</p>'', ascii ''<'', ascii ''b''] \<and>
   map element (extract_html_structure (ascii ''<p>x</p><b''))
     = [ascii ''<p>'', ascii ''x'', ascii ''</p>'', ascii ''b'']"
proof -
  have w: "well_tagged (ascii ''<p>Hi <b>x</b> </p>'')"
    by (simp add: ascii_def LT_def GT_def)
  have s1: "segmentation (ascii ''<p>Hi <b>x</b> </p>'')
     [ascii ''<p>'', ascii ''Hi '', ascii ''<b>'', ascii ''x'', ascii ''</b>'', ascii '' '',
      ascii ''</p>'']"
    by (simp add: ascii_def LT_def GT_def)
  have s2: "segmentation (ascii ''<p>x</p><b'')
     [ascii ''<p>'', ascii ''x'', ascii ''</p>'', ascii ''<'', ascii ''b'']"
    by (simp add: ascii_def LT_def GT_def)
  note t1 = tokenizer_roundtrip [of "ascii ''<p>Hi <b>x</b> </p>''"
      "[ascii ''<p>'', ascii ''Hi '', ascii ''<b>'', ascii ''x'', ascii ''</b>'', ascii '' '',
        ascii ''</p>'']", THEN conjunct2, THEN mp, OF s1]
  note t1w = t1 [THEN conjunct2, THEN conjunct2, THEN conjunct2, THEN mp, OF w]
  have a: "map element (extract_html_structure (ascii ''<p>Hi <b>x</b> </p>''))
     = [ascii ''<p>'', ascii ''Hi '', ascii ''<b>'', ascii ''x'', ascii ''</b>'', ascii ''</p>'']"
    unfolding t1w [THEN conjunct2, THEN conjunct1]
    by (simp add: ascii_def strip_def lstrip_def rstrip_def isspace_def)
  have b: "filter (\<lambda>c. \<not> isspace c)
       (concat (map element (extract_html_structure (ascii ''<p>Hi <b>x</b> </p>''))))
     = filter (\<lambda>c. \<not> isspace c) (ascii ''<p>Hi <b>x</b> </p>'')"
    by (rule t1w [THEN conjunct2, THEN conjunct2])
  note t2 = tokenizer_roundtrip [of "ascii ''<p>x</p><b''"
      "[ascii ''<p>'', ascii ''x'', ascii ''</p>'', ascii ''<'', ascii ''b'']",
      THEN conjunct2, THEN mp, OF s2]
  have c: "map element (extract_html_structure (ascii ''<p>x</p><b''))
     = [ascii ''<p>'', ascii ''x'', ascii ''</p>'', ascii ''b'']"
    unfolding t2 [THEN conjunct2, THEN conjunct1]
    by (simp add: ascii_def strip_def lstrip_def rstrip_def isspace_def LT_def)
  from w s1 a b s2 c show ?thesis by (intro conjI)
qed

text \<open>
  Claim C7 as stated fails: on the input \<^verbatim>\<open><b\<close> the tokenizer yields the single token
  \<^verbatim>\<open>b\<close>, so the non-whitespace character \<^verbatim>\<open><\<close> is dropped.
\<close>

theorem tokenizer_drops_counterexample:
  "filter (\<lambda>c. \<not> isspace c) (concat (map element (extract_html_structure (ascii ''<b''))))
     \<noteq> filter (\<lambda>c. \<not> isspace c) (ascii ''<b'')"
  by (simp add: ascii_def extract_html_structure_def mk_token_def LT_def GT_def strip_def
      lstrip_def rstrip_def isspace_def startswith_def endswith_def)

section \<open>Properties of the validator\<close>

lemma zip_drop_Cons:
  assumes "(a, b) # rest = zip (drop m xs) (drop n ys)"
  shows "m < length xs \<and> n < length ys \<and> a = xs ! m \<and> b = ys ! n \<and>
         rest = zip (drop (Suc m) xs) (drop (Suc n) ys)"
proof -
  from assms have nx: "drop m xs \<noteq> []" and ny: "drop n ys \<noteq> []" by auto
  then have m: "m < length xs" and n: "n < length ys" by auto
  have "drop m xs = xs ! m # drop (Suc m) xs" using m by (simp add: Cons_nth_drop_Suc)
  moreover have "drop n ys = ys ! n # drop (Suc n) ys" using n by (simp add: Cons_nth_drop_Suc)
  ultimately show ?thesis using assms m n by simp
qed

lemma next_leftover_not_last:
  "Suc i < length ts \<Longrightarrow> next_leftover tc ts i t lo = lo"
  by (simp add: next_leftover_def trailing_text_def)

lemma validate_loop_raises:
  assumes "validate_loop os tc sp ts i pairs lo = Inl e"
      and "pairs = zip (drop (sp + i) os) (drop i ts)"
  shows "\<exists>j. i \<le> j \<and> j < length ts \<and> sp + j < length os \<and>
           e = mismatch_error os tc sp ts j (os ! (sp + j)) (ts ! j)
                 (next_leftover tc ts j (ts ! j) lo)"
  using assms
proof (induction pairs arbitrary: i lo)
  case Nil
  then show ?case by simp
next
  case (Cons p rest)
  obtain a b where p: "p = (a, b)" by (cases p)
  from Cons.prems(2) p have z: "(a, b) # rest = zip (drop (sp + i) os) (drop i ts)" by simp
  note facts = zip_drop_Cons [OF z]
  let ?lo = "next_leftover tc ts i b lo"
  show ?case
  proof (cases "\<not> skip_pair ts i b ?lo \<and> tokens_differ a b")
    case True
    with Cons.prems(1) p have "e = mismatch_error os tc sp ts i a b ?lo"
      by (simp add: Let_def)
    with facts show ?thesis by blast
  next
    case False
    with Cons.prems(1) p have rec: "validate_loop os tc sp ts (Suc i) rest ?lo = Inl e"
      by (auto simp add: Let_def)
    from facts have rest: "rest = zip (drop (sp + Suc i) os) (drop (Suc i) ts)" by simp
    from Cons.IH [OF rec rest] obtain j where
      j: "Suc i \<le> j" "j < length ts" "sp + j < length os"
         "e = mismatch_error os tc sp ts j (os ! (sp + j)) (ts ! j) (next_leftover tc ts j (ts ! j) ?lo)"
      by blast
    from j(1,2) have "Suc i < length ts" by simp
    then have "?lo = lo" by (rule next_leftover_not_last)
    with j show ?thesis by (metis Suc_leD)
  qed
qed

lemma validate_raises:
  assumes "validate_html_structure os tc sp lo = Inl e"
  shows "extract_html_structure (lo @ tc) = [] \<and> e = IndexError \<or>
         extract_html_structure (lo @ tc) \<noteq> [] \<and> length os \<le> sp \<and> e = UnboundLocalError \<or>
         (\<exists>j. j < length (extract_html_structure (lo @ tc)) \<and> sp + j < length os \<and>
            e = mismatch_error os tc sp (extract_html_structure (lo @ tc)) j (os ! (sp + j))
                  (extract_html_structure (lo @ tc) ! j)
                  (next_leftover tc (extract_html_structure (lo @ tc)) j
                     (extract_html_structure (lo @ tc) ! j) lo))"
proof -
  let ?ts = "extract_html_structure (lo @ tc)"
  let ?pairs = "zip (drop sp os) ?ts"
  show ?thesis
  proof (cases "validate_loop os tc sp ?ts 0 ?pairs lo")
    case (Inl e')
    with assms have "e' = e" by (simp add: validate_html_structure_def Let_def)
    with Inl have "validate_loop os tc sp ?ts 0 ?pairs lo = Inl e" by simp
    from validate_loop_raises [OF this] show ?thesis by auto
  next
    case (Inr lo')
    with assms show ?thesis
      by (auto simp add: validate_html_structure_def Let_def split: if_splits)
  qed
qed

lemma mismatch_error_inject:
  assumes "StructureMismatch m = mismatch_error os tc sp ts j a b lo"
  shows "tc \<noteq> [] \<and>
    ratio m = min 1 ((of_nat (length (concat (map element (take (j + 1) ts))))
                - of_nat (length lo)) / of_nat (length tc) + 5 / 100) \<and>
    orig m = a \<and> trans_tok m = b \<and>
    original_context m = concat (map (\<lambda>s. truncate_str (element s) 50)
        (slice os (max (int sp) (int sp + int j - 4)) (int sp + int j + 1))) \<and>
    translated_context m = concat (map (\<lambda>s. truncate_str (element s) 50)
        (slice ts (max 0 (int j - 4)) (int j + 1)))"
  using assms by (auto simp add: mismatch_error_def split: if_splits)

text \<open>
  Claim C4 (consumed ratio), as the code has it. Whenever validation raises a structure
  mismatch, at the token with index \<open>i\<close>, the error's ratio is
  \<open>min 1 ((T - L) / N + 0.05)\<close>: \<open>T\<close> is the total length of the translated tokens up to and
  including the mismatching one, \<open>L\<close> the length of the leftover at that moment (the carried
  leftover, unless the mismatching token is the final token and is text, for which the
  leftover has just been recomputed) and \<open>N\<close> the length of the new increment. The 0.05 is
  added before the cap, so the ratio never exceeds 1.
\<close>

theorem consumed_ratio_formula:
  assumes "validate_html_structure os tc sp lo = Inl (StructureMismatch m)"
  shows "\<exists>i. i < length (extract_html_structure (lo @ tc)) \<and> sp + i < length os \<and>
           orig m = os ! (sp + i) \<and> trans_tok m = extract_html_structure (lo @ tc) ! i \<and>
           ratio m = min 1
             ((of_nat (length (concat (map element (take (i + 1) (extract_html_structure (lo @ tc))))))
                - of_nat (length (next_leftover tc (extract_html_structure (lo @ tc)) i
                     (trans_tok m) lo)))
              / of_nat (length tc) + 5 / 100) \<and>
           (\<not> trailing_text (extract_html_structure (lo @ tc)) i (trans_tok m) \<longrightarrow>
              next_leftover tc (extract_html_structure (lo @ tc)) i (trans_tok m) lo = lo) \<and>
           ratio m \<le> 1"
proof -
  let ?ts = "extract_html_structure (lo @ tc)"
  from validate_raises [OF assms] obtain j where
    j: "j < length ?ts" "sp + j < length os"
       "StructureMismatch m = mismatch_error os tc sp ?ts j (os ! (sp + j)) (?ts ! j)
           (next_leftover tc ?ts j (?ts ! j) lo)"
    by auto
  note inj = mismatch_error_inject [OF j(3)]
  have "\<not> trailing_text ?ts j (trans_tok m) \<longrightarrow> next_leftover tc ?ts j (trans_tok m) lo = lo"
    by (simp add: next_leftover_def)
  moreover have "ratio m \<le> 1" using inj by simp
  ultimately show ?thesis using j(1,2) inj by auto
qed

text \<open>The scenario of the specification: \<^verbatim>\<open><br>\<close> expected, \<^verbatim>\<open><span>\<close> found.\<close>

theorem consumed_ratio_formula_witness:
  "\<exists>m i. validate_html_structure
        (extract_html_structure (ascii ''<div class=x>a<br>b</div>''))
        (ascii ''<div>Bonjour<span>Monde</div>'') 0 [] = Inl (StructureMismatch m) \<and>
      i < length (extract_html_structure ([] @ ascii ''<div>Bonjour<span>Monde</div>'')) \<and>
      ratio m = 389 / 580 \<and> ratio m \<le> 1"
proof -
  have "\<exists>m. validate_html_structure
        (extract_html_structure (ascii ''<div class=x>a<br>b</div>''))
        (ascii ''<div>Bonjour<span>Monde</div>'') 0 [] = Inl (StructureMismatch m) \<and> ratio m = 389 / 580"
    by (simp add: eval_defs)
  then obtain m where m: "validate_html_structure
        (extract_html_structure (ascii ''<div class=x>a<br>b</div>''))
        (ascii ''<div>Bonjour<span>Monde</div>'') 0 [] = Inl (StructureMismatch m)" "ratio m = 389 / 580"
    by blast
  from consumed_ratio_formula [OF m(1)] m show ?thesis by blast
qed

text \<open>
  Claim C4 as stated fails: when the mismatching token ends the increment the quotient is 1,
  the code's ratio is 1, and the formula of the claim gives 1.05.
\<close>

theorem consumed_ratio_counterexample:
  "raised_mismatch (validate_html_structure [Token (ascii ''<a>'') True 3] (ascii ''<b>'') 0 []) \<noteq> None \<and>
   map_option ratio
     (raised_mismatch (validate_html_structure [Token (ascii ''<a>'') True 3] (ascii ''<b>'') 0 []))
    = Some 1 \<and>
   spec_consumed_ratio (extract_html_structure ([] @ ascii ''<b>'')) 0 [] (ascii ''<b>'') = 21 / 20"
  by (simp add: eval_defs raised_mismatch_def spec_consumed_ratio_def)

lemma truncate_str_50:
  "truncate_str s 50 =
     (if length s \<le> 100 then s else take 50 s @ ascii ''...'' @ drop (length s - 50) s)"
proof -
  have "length s > 100 \<Longrightarrow> nat (int (length s) - 50) = length s - 50" by simp
  then show ?thesis
    by (simp add: truncate_str_def slice_to_def slice_from_def clip_def)
qed

lemma length_truncate_str_50: "length (truncate_str s 50) \<le> 103"
  by (simp add: truncate_str_50 ascii_def)

lemma slice_window:
  assumes "m < length xs"
  shows "slice xs (max (int a) (int m - 4)) (int m + 1) = drop (max a (m - 4)) (take (Suc m) xs)"
proof -
  have "clip (length xs) (int m + 1) = Suc m" using assms by (simp add: clip_def)
  moreover have "nat (max (int a) (int m - 4)) = max a (m - 4)" by arith
  then have "clip (length xs) (max (int a) (int m - 4)) = min (length xs) (max a (m - 4))"
    by (simp add: clip_def)
  moreover have "drop (min (length xs) k) (take (Suc m) xs) = drop k (take (Suc m) xs)" for k
    using assms by (cases "k \<le> length xs") (simp_all add: min_def)
  ultimately show ?thesis by (simp add: slice_def)
qed

text \<open>
  Claim C9 (diagnostic context windows), as the code has it. Whenever validation raises a
  structure mismatch, at the token with index \<open>i\<close>, each of the two context windows is built
  from the mismatching token and the at most four tokens before it (never from before the
  start position on the reference side). A token of at most 100 characters contributes its
  whole text; a longer one contributes its first 50 and its last 50 characters around an
  ellipsis. So a token contributes at most 103 characters and a window at most 515.
\<close>

theorem context_windows:
  assumes "validate_html_structure os tc sp lo = Inl (StructureMismatch m)"
  shows "(\<exists>i. i < length (extract_html_structure (lo @ tc)) \<and> sp + i < length os \<and>
            orig m = os ! (sp + i) \<and> trans_tok m = extract_html_structure (lo @ tc) ! i \<and>
            original_context m = concat (map (\<lambda>s. truncate_str (element s) 50)
               (drop (sp + (i - 4)) (take (Suc (sp + i)) os))) \<and>
            translated_context m = concat (map (\<lambda>s. truncate_str (element s) 50)
               (drop (i - 4) (take (Suc i) (extract_html_structure (lo @ tc))))) \<and>
            length (drop (sp + (i - 4)) (take (Suc (sp + i)) os)) \<le> 5 \<and>
            length (drop (i - 4) (take (Suc i) (extract_html_structure (lo @ tc)))) \<le> 5) \<and>
         (\<forall>s. truncate_str s 50 =
            (if length s \<le> 100 then s else take 50 s @ ascii ''...'' @ drop (length s - 50) s)) \<and>
         (\<forall>s. length (truncate_str s 50) \<le> 103) \<and>
         length (original_context m) \<le> 515 \<and> length (translated_context m) \<le> 515"
proof -
  let ?ts = "extract_html_structure (lo @ tc)"
  from validate_raises [OF assms] obtain j where
    j: "j < length ?ts" "sp + j < length os"
       "StructureMismatch m = mismatch_error os tc sp ?ts j (os ! (sp + j)) (?ts ! j)
           (next_leftover tc ?ts j (?ts ! j) lo)"
    by auto
  note inj = mismatch_error_inject [OF j(3)]
  let ?wo = "drop (sp + (j - 4)) (take (Suc (sp + j)) os)"
  let ?wt = "drop (j - 4) (take (Suc j) ?ts)"
  have "slice os (max (int sp) (int (sp + j) - 4)) (int (sp + j) + 1)
          = drop (max sp (sp + j - 4)) (take (Suc (sp + j)) os)"
    by (rule slice_window [OF j(2)])
  moreover have "max sp (sp + j - 4) = sp + (j - 4)" by simp
  ultimately have wo: "original_context m = concat (map (\<lambda>s. truncate_str (element s) 50) ?wo)"
    using inj by (simp add: add.commute)
  have "slice ?ts (max (int 0) (int j - 4)) (int j + 1) = drop (max 0 (j - 4)) (take (Suc j) ?ts)"
    by (rule slice_window [OF j(1)])
  then have wt: "translated_context m = concat (map (\<lambda>s. truncate_str (element s) 50) ?wt)"
    using inj by simp
  have lwo: "length ?wo \<le> 5" and lwt: "length ?wt \<le> 5" using j(1,2) by auto
  have bound: "length (concat (map (\<lambda>s. truncate_str (element s) 50) w)) \<le> 103 * length w"
    for w :: "token list"
  proof (induction w)
    case Nil
    then show ?case by simp
  next
    case (Cons t w)
    then show ?case using length_truncate_str_50 [of "element t"] by simp
  qed
  have "length (original_context m) \<le> 515"
    using bound [of ?wo] lwo wo by simp
  moreover have "length (translated_context m) \<le> 515"
    using bound [of ?wt] lwt wt by simp
  ultimately show ?thesis
    using j(1,2) inj wo wt lwo lwt truncate_str_50 length_truncate_str_50 by blast
qed


text \<open>The scenario of the specification again.\<close>

theorem context_windows_witness:
  "\<exists>m i. validate_html_structure
        (extract_html_structure (ascii ''<div class=x>a<br>b</div>''))
        (ascii ''<div>Bonjour<span>Monde</div>'') 0 [] = Inl (StructureMismatch m) \<and>
      translated_context m = concat (map (\<lambda>s. truncate_str (element s) 50)
         (drop (i - 4) (take (Suc i)
            (extract_html_structure ([] @ ascii ''<div>Bonjour<span>Monde</div>''))))) \<and>
      length (translated_context m) \<le> 515"
proof -
  have "\<exists>m. validate_html_structure
        (extract_html_structure (ascii ''<div class=x>a<br>b</div>''))
        (ascii ''<div>Bonjour<span>Monde</div>'') 0 [] = Inl (StructureMismatch m)"
    by (simp add: eval_defs)
  then obtain m where m: "validate_html_structure
        (extract_html_structure (ascii ''<div class=x>a<br>b</div>''))
        (ascii ''<div>Bonjour<span>Monde</div>'') 0 [] = Inl (StructureMismatch m)"
    by blast
  from context_windows [OF m] m show ?thesis by blast
qed

text \<open>
  Claim C9 as stated fails: a mismatching tag of 60 characters enters the translated window
  whole, so this one-token window has 60 characters, not at most 50.
\<close>

theorem context_windows_counterexample:
  "map_option (\<lambda>m. length (translated_context m))
     (raised_mismatch (validate_html_structure [Token (ascii ''<a>'') True 3]
        (ascii ''<bbbbbbbbbbbbbbbbbbbbbbbbbbbbbbbbbbbbbbbbbbbbbbbbbbbbbbbbbb>'') 0 []))
   = Some 60"
  by (simp add: eval_defs raised_mismatch_def)

lemma isspace_LT: "\<not> isspace LT"
  by (simp add: isspace_def LT_def)

lemma finditer_text:
  assumes "LT \<notin> set s" and "s \<noteq> []"
  shows "finditer s pos = [(s, pos + length s)]"
proof (cases s)
  case Nil
  with assms show ?thesis by simp
next
  case (Cons c cs)
  with assms have c: "c \<noteq> LT" and cs: "\<forall>x\<in>set cs. x \<noteq> LT" by auto
  from cs have tw: "takeWhile (\<lambda>x. x \<noteq> LT) cs = cs"
    and dw: "dropWhile (\<lambda>x. x \<noteq> LT) cs = []"
    by simp_all
  from c Cons show ?thesis by (simp add: tw dw)
qed

lemma tokens_of_whitespace:
  assumes "\<forall>c\<in>set s. isspace c"
  shows "extract_html_structure s = []"
proof (cases "s = []")
  case True
  then show ?thesis by (simp add: extract_html_structure_def)
next
  case False
  from assms isspace_LT have "LT \<notin> set s" by blast
  then have "finditer s 0 = [(s, 0 + length s)]" using False by (rule finditer_text)
  moreover from assms have dw: "dropWhile isspace s = []" by simp
  have "strip s = []" by (simp add: strip_def lstrip_def rstrip_def dw)
  ultimately show ?thesis by (simp add: extract_html_structure_def)
qed

text \<open>
  Claim C10 (when validation returns), as the code has it. If leftover plus increment
  tokenizes to at least one token, the start position is below the length of the skeleton
  and the increment is not empty, the call returns a pair or raises the structure mismatch.
  If leftover plus increment yields no token, as it does when it is empty or whitespace-only,
  the call fails with \<^verbatim>\<open>IndexError\<close>. If there is a token and the start position is at or
  past the end of the skeleton, it fails with \<^verbatim>\<open>UnboundLocalError\<close>.
\<close>

theorem validate_totality:
  "(extract_html_structure (lo @ tc) \<noteq> [] \<and> sp < length os \<and> tc \<noteq> [] \<longrightarrow>
      (\<exists>p l. validate_html_structure os tc sp lo = Inr (p, l)) \<or>
      (\<exists>m. validate_html_structure os tc sp lo = Inl (StructureMismatch m))) \<and>
   (extract_html_structure (lo @ tc) = [] \<longrightarrow>
      validate_html_structure os tc sp lo = Inl IndexError) \<and>
   ((\<forall>c\<in>set (lo @ tc). isspace c) \<longrightarrow> extract_html_structure (lo @ tc) = []) \<and>
   (extract_html_structure (lo @ tc) \<noteq> [] \<and> length os \<le> sp \<longrightarrow>
      validate_html_structure os tc sp lo = Inl UnboundLocalError)"
proof (intro conjI impI)
  assume pre: "extract_html_structure (lo @ tc) \<noteq> [] \<and> sp < length os \<and> tc \<noteq> []"
  show "(\<exists>p l. validate_html_structure os tc sp lo = Inr (p, l)) \<or>
        (\<exists>m. validate_html_structure os tc sp lo = Inl (StructureMismatch m))"
  proof (cases "validate_html_structure os tc sp lo")
    case (Inr r)
    then show ?thesis by (cases r) simp
  next
    case (Inl e)
    from validate_raises [OF Inl] pre obtain j where
      "e = mismatch_error os tc sp (extract_html_structure (lo @ tc)) j (os ! (sp + j))
             (extract_html_structure (lo @ tc) ! j)
             (next_leftover tc (extract_html_structure (lo @ tc)) j
                (extract_html_structure (lo @ tc) ! j) lo)"
      by auto
    with pre have "\<exists>m. e = StructureMismatch m" by (simp add: mismatch_error_def)
    with Inl show ?thesis by auto
  qed
next
  assume "extract_html_structure (lo @ tc) = []"
  then show "validate_html_structure os tc sp lo = Inl IndexError"
    by (simp add: validate_html_structure_def)
next
  assume "\<forall>c\<in>set (lo @ tc). isspace c"
  then show "extract_html_structure (lo @ tc) = []" by (rule tokens_of_whitespace)
next
  assume "extract_html_structure (lo @ tc) \<noteq> [] \<and> length os \<le> sp"
  then show "validate_html_structure os tc sp lo = Inl UnboundLocalError"
    by (simp add: validate_html_structure_def)
qed

text \<open>One run for each of the three cases.\<close>

theorem validate_totality_witness:
  "(extract_html_structure ([] @ ascii ''<div>Bonjour<br>Mon'') \<noteq> [] \<and>
    0 < length (extract_html_structure (ascii ''<div class=x>a<br>b</div>'')) \<and>
    ascii ''<div>Bonjour<br>Mon'' \<noteq> [] \<and>
    validate_html_structure (extract_html_structure (ascii ''<div class=x>a<br>b</div>''))
      (ascii ''<div>Bonjour<br>Mon'') 0 [] = Inr (3, ascii ''Mon'')) \<and>
   (extract_html_structure (ascii '' '' @ ascii ''  '') = [] \<and>
    validate_html_structure [Token (ascii ''<a>'') True 3] (ascii ''  '') 0 (ascii '' '')
      = Inl IndexError) \<and>
   (extract_html_structure ([] @ ascii ''<b>'') \<noteq> [] \<and>
    length [Token (ascii ''<a>'') True 3] \<le> 1 \<and>
    validate_html_structure [Token (ascii ''<a>'') True 3] (ascii ''<b>'') 1 []
      = Inl UnboundLocalError)"
proof -
  have a: "extract_html_structure ([] @ ascii ''<div>Bonjour<br>Mon'') \<noteq> [] \<and>
    0 < length (extract_html_structure (ascii ''<div class=x>a<br>b</div>'')) \<and>
    ascii ''<div>Bonjour<br>Mon'' \<noteq> []"
    by (simp add: eval_defs)
  have b: "validate_html_structure (extract_html_structure (ascii ''<div class=x>a<br>b</div>''))
      (ascii ''<div>Bonjour<br>Mon'') 0 [] = Inr (3, ascii ''Mon'')"
    by (simp add: eval_defs)
  have c: "\<forall>c\<in>set (ascii '' '' @ ascii ''  ''). isspace c"
    by (simp add: ascii_def isspace_def)
  have d: "extract_html_structure ([] @ ascii ''<b>'') \<noteq> [] \<and>
    length [Token (ascii ''<a>'') True 3] \<le> 1"
    by (simp add: eval_defs)
  from validate_totality [of "ascii '' ''" "ascii ''  ''" 0 "[Token (ascii ''<a>'') True 3]"] c
  have e: "extract_html_structure (ascii '' '' @ ascii ''  '') = [] \<and>
    validate_html_structure [Token (ascii ''<a>'') True 3] (ascii ''  '') 0 (ascii '' '')
      = Inl IndexError" by blast
  from validate_totality [of "[]" "ascii ''<b>''" 1 "[Token (ascii ''<a>'') True 3]"] d
  have f: "validate_html_structure [Token (ascii ''<a>'') True 3] (ascii ''<b>'') 1 []
      = Inl UnboundLocalError" by blast
  from a b d e f show ?thesis by blast
qed

text \<open>
  Claim C10 as stated fails: with a carried leftover \<^verbatim>\<open>abc\<close>, an empty increment and a
  skeleton that expects a tag, there is a token and the start position is in range, yet the
  call ends in \<^verbatim>\<open>ZeroDivisionError\<close> while it computes the ratio.
\<close>

theorem validate_totality_counterexample:
  "extract_html_structure (ascii ''abc'' @ []) \<noteq> [] \<and>
   0 < length [Token (ascii ''<a>'') True 3] \<and>
   validate_html_structure [Token (ascii ''<a>'') True 3] [] 0 (ascii ''abc'')
     = Inl ZeroDivisionError"
  by (simp add: eval_defs)

section \<open>Properties of the leak detector\<close>

lemma ranges_loop_outside:
  "\<not> in_ranges ranges c \<Longrightarrow> hebrew_ranges_loop ranges i c acc = Inr acc"
  by (induction ranges) (auto simp add: in_ranges_def split: if_splits)

lemma ranges_loop_disjoint:
  assumes "disjoint_ranges ranges" and "length acc \<le> 15"
  shows "hebrew_ranges_loop ranges i c acc =
     (if in_ranges ranges c then
        (if length acc = 15 then Inl (acc @ [i]) else Inr (acc @ [i]))
      else Inr acc)"
  using assms
proof (induction ranges)
  case Nil
  then show ?case by (simp add: in_ranges_def)
next
  case (Cons r ranges)
  obtain start stop where r: "r = (start, stop)" by (cases r)
  show ?case
  proof (cases "start \<le> c \<and> c \<le> stop")
    case True
    from Cons.prems(1) r True have "\<not> in_ranges ranges c"
      by (auto simp add: in_ranges_def list_all_iff list_ex_iff)
    then have "hebrew_ranges_loop ranges i c (acc @ [i]) = Inr (acc @ [i])"
      by (rule ranges_loop_outside)
    with True r Cons.prems(2) show ?thesis by (auto simp add: in_ranges_def)
  next
    case False
    with Cons r show ?thesis by (auto simp add: in_ranges_def)
  qed
qed

lemma text_loop_disjoint:
  assumes "disjoint_ranges ranges" and "length acc \<le> 15"
  shows "hebrew_text_loop ranges i cs acc = take 16 (acc @ positions_from ranges i cs)"
  using assms(2)
proof (induction cs arbitrary: i acc)
  case Nil
  then show ?case by simp
next
  case (Cons c cs)
  note loop = ranges_loop_disjoint [OF assms(1) Cons.prems, of i c]
  show ?case
  proof (cases "in_ranges ranges c")
    case False
    with loop Cons show ?thesis by simp
  next
    case True
    show ?thesis
    proof (cases "length acc = 15")
      case full: True
      with loop True show ?thesis by simp
    next
      case False
      with Cons.prems have "length (acc @ [i]) \<le> 15" by simp
      from Cons.IH [OF this] loop True False show ?thesis by simp
    qed
  qed
qed

lemma positions_from_filter:
  "positions_from ranges i cs = map (\<lambda>k. i + k) (filter (\<lambda>k. in_ranges ranges (cs ! k)) [0..<length cs])"
proof (induction cs arbitrary: i)
  case Nil
  then show ?case by simp
next
  case (Cons c cs)
  have upt: "[0..<length (c # cs)] = 0 # map Suc [0..<length cs]"
    by (metis length_Cons map_Suc_upt upt_conv_Cons zero_less_Suc)
  show ?case
    unfolding upt by (simp add: Cons.IH filter_map comp_def)
qed

lemma contains_hebrew_positions:
  assumes "disjoint_ranges ranges"
  shows "contains_hebrew ranges s
           = take 16 (filter (\<lambda>k. in_ranges ranges (s ! k)) [0..<length s])"
proof -
  have "contains_hebrew ranges s = take 16 (positions_from ranges 0 s)"
    using text_loop_disjoint [OF assms, of "[]" 0 s] by (simp add: contains_hebrew_def)
  then show ?thesis by (simp add: positions_from_filter)
qed

text \<open>
  Claim C8 (leak detector), as the code has it. With ranges of which no two share a code
  point, the detector returns the indices of the characters that lie in a range, in
  increasing order and without repetition, and stops once it holds 16 of them: all of them
  when there are at most 16, the first 16 otherwise, never more than 16.
\<close>

theorem leak_positions:
  assumes "disjoint_ranges ranges"
  shows "contains_hebrew ranges s
           = take 16 (filter (\<lambda>k. in_ranges ranges (s ! k)) [0..<length s]) \<and>
         length (contains_hebrew ranges s) \<le> 16 \<and>
         sorted (contains_hebrew ranges s) \<and> distinct (contains_hebrew ranges s) \<and>
         (length (filter (\<lambda>k. in_ranges ranges (s ! k)) [0..<length s]) \<le> 16 \<longrightarrow>
            set (contains_hebrew ranges s) = {k. k < length s \<and> in_ranges ranges (s ! k)})"
proof -
  let ?all = "filter (\<lambda>k. in_ranges ranges (s ! k)) [0..<length s]"
  have eq: "contains_hebrew ranges s = take 16 ?all"
    by (rule contains_hebrew_positions [OF assms])
  have len: "length (take 16 ?all) \<le> 16" by simp
  have "sorted ?all" by (simp add: sorted_wrt_filter)
  then have srt: "sorted (take 16 ?all)" by (rule sorted_wrt_take)
  have dst: "distinct (take 16 ?all)" by simp
  have all: "length ?all \<le> 16 \<longrightarrow> set (take 16 ?all) = {k. k < length s \<and> in_ranges ranges (s ! k)}"
  proof
    assume "length ?all \<le> 16"
    then have "take 16 ?all = ?all" by simp
    moreover have "set ?all = {k. k < length s \<and> in_ranges ranges (s ! k)}" by auto
    ultimately show "set (take 16 ?all) = {k. k < length s \<and> in_ranges ranges (s ! k)}" by simp
  qed
  show ?thesis unfolding eq using len srt dst all by blast
qed

text \<open>Hebrew letters at the indices 5 and 12, with the two Hebrew blocks as ranges.\<close>

theorem leak_positions_witness:
  "disjoint_ranges [(1424, 1535), (64285, 64335)] \<and>
   contains_hebrew [(1424, 1535), (64285, 64335)]
     [72, 101, 108, 108, 111, 1513, 32, 119, 111, 114, 108, 100, 64298, 33] = [5, 12] \<and>
   length (contains_hebrew [(1424, 1535), (64285, 64335)]
     [72, 101, 108, 108, 111, 1513, 32, 119, 111, 114, 108, 100, 64298, 33]) \<le> 16"
proof -
  have d: "disjoint_ranges [(1424, 1535), (64285, 64335)]" by simp
  have e: "contains_hebrew [(1424, 1535), (64285, 64335)]
     [72, 101, 108, 108, 111, 1513, 32, 119, 111, 114, 108, 100, 64298, 33] = [5, 12]"
    by (simp add: contains_hebrew_def)
  from leak_positions [OF d] have "length (contains_hebrew [(1424, 1535), (64285, 64335)]
     [72, 101, 108, 108, 111, 1513, 32, 119, 111, 114, 108, 100, 64298, 33]) \<le> 16"
    by (rule conjunct2 [THEN conjunct1])
  with d e show ?thesis by (intro conjI)
qed

text \<open>
  Claim C8 as stated fails: on 17 Hebrew letters the detector returns 16 indices, one more
  than the cap of 15 that the claim gives.
\<close>

theorem leak_cap_counterexample:
  "contains_hebrew [(1424, 1535)]
     [1488, 1489, 1490, 1491, 1492, 1493, 1494, 1495, 1496, 1497, 1498, 1499, 1500, 1501, 1502,
      1503, 1504]
   = [0, 1, 2, 3, 4, 5, 6, 7, 8, 9, 10, 11, 12, 13, 14, 15]"
  by (simp add: contains_hebrew_def)

section \<open>Properties of the chunk boundary adjuster\<close>

lemma slice_split: "slice_to s n @ slice_from s n = s"
  by (simp add: slice_to_def slice_from_def)

lemma set_chunk_text_fst:
  "k < length chunks \<Longrightarrow> map fst (set_chunk_text chunks k s) = map fst chunks"
  by (simp add: set_chunk_text_def map_update list_update_same_conv)

lemma set_chunk_text_length [simp]: "length (set_chunk_text chunks k s) = length chunks"
  by (simp add: set_chunk_text_def)

lemma concat_update_two:
  fixes xs :: "chunk list"
  assumes "Suc k < length xs" and "a @ b = snd (xs ! k) @ snd (xs ! Suc k)"
  shows "concat (map snd (xs[k := (i, a), Suc k := (i', b)])) = concat (map snd xs)"
  using assms
proof (induction xs arbitrary: k)
  case Nil
  then show ?case by simp
next
  case (Cons x xs)
  show ?case
  proof (cases k)
    case 0
    with Cons.prems obtain y ys where "xs = y # ys" by (cases xs) auto
    with 0 Cons.prems show ?thesis by simp
  next
    case (Suc k')
    with Cons show ?thesis by simp
  qed
qed

lemma update_fst_same:
  "(map fst chunks)[k := fst (chunks ! k), Suc k := fst (chunks ! Suc k)] = map fst chunks"
proof -
  have "(map fst chunks)[k := fst (chunks ! k)] = map fst chunks"
    by (metis list_update_id map_update)
  moreover have "(map fst chunks)[Suc k := fst (chunks ! Suc k)] = map fst chunks"
    by (metis list_update_id map_update)
  ultimately show ?thesis by simp
qed

lemma move_back_adjacent:
  assumes "Suc k < length chunks"
  shows "concat (map snd (move_back k (Suc k) n chunks)) = concat (map snd chunks)"
    and "map fst (move_back k (Suc k) n chunks) = map fst chunks"
    and "length (move_back k (Suc k) n chunks) = length chunks"
proof -
  let ?a = "snd (chunks ! k) @ slice_to (snd (chunks ! Suc k)) n"
  let ?b = "slice_from (snd (chunks ! Suc k)) n"
  have mb: "move_back k (Suc k) n chunks
      = chunks[k := (fst (chunks ! k), ?a), Suc k := (fst (chunks ! Suc k), ?b)]"
    by (simp add: move_back_def set_chunk_text_def Let_def)
  have "?a @ ?b = snd (chunks ! k) @ snd (chunks ! Suc k)" by (simp add: slice_split)
  from concat_update_two [OF assms this]
  show "concat (map snd (move_back k (Suc k) n chunks)) = concat (map snd chunks)"
    by (simp add: mb)
  show "map fst (move_back k (Suc k) n chunks) = map fst chunks"
    by (simp add: mb map_update update_fst_same)
  show "length (move_back k (Suc k) n chunks) = length chunks" by (simp add: mb)
qed

lemma move_forward_adjacent:
  assumes "Suc k < length chunks"
  shows "concat (map snd (move_forward k (Suc k) n chunks)) = concat (map snd chunks)"
    and "map fst (move_forward k (Suc k) n chunks) = map fst chunks"
    and "length (move_forward k (Suc k) n chunks) = length chunks"
proof -
  let ?a = "slice_to (snd (chunks ! k)) n"
  let ?b = "slice_from (snd (chunks ! k)) n @ snd (chunks ! Suc k)"
  have mf: "move_forward k (Suc k) n chunks
      = chunks[k := (fst (chunks ! k), ?a), Suc k := (fst (chunks ! Suc k), ?b)]"
    using assms by (simp add: move_forward_def set_chunk_text_def Let_def list_update_swap)
  have "?a @ ?b = snd (chunks ! k) @ snd (chunks ! Suc k)" by (simp add: slice_split)
  from concat_update_two [OF assms this]
  show "concat (map snd (move_forward k (Suc k) n chunks)) = concat (map snd chunks)"
    by (simp add: mf)
  show "map fst (move_forward k (Suc k) n chunks) = map fst chunks"
    by (simp add: mf map_update update_fst_same)
  show "length (move_forward k (Suc k) n chunks) = length chunks" by (simp add: mf)
qed

lemma separator_loop_adjacent:
  assumes "Suc k < length chunks"
  shows "concat (map snd (separator_loop separators k (Suc k) chunks)) = concat (map snd chunks) \<and>
         map fst (separator_loop separators k (Suc k) chunks) = map fst chunks \<and>
         length (separator_loop separators k (Suc k) chunks) = length chunks"
proof (induction separators)
  case Nil
  then show ?case by simp
next
  case (Cons separator separators)
  then show ?case
    using move_back_adjacent [OF assms] move_forward_adjacent [OF assms]
    by (simp add: Let_def)
qed

lemma tag_loop_adjacent:
  assumes "Suc k < length chunks"
  shows "concat (map snd (tag_loop items k (Suc k) chunks)) = concat (map snd chunks) \<and>
         map fst (tag_loop items k (Suc k) chunks) = map fst chunks \<and>
         length (tag_loop items k (Suc k) chunks) = length chunks"
  using assms
proof (induction items arbitrary: chunks)
  case Nil
  then show ?case by simp
next
  case (Cons item items)
  show ?case
  proof (cases "is_html_tag item")
    case False
    then show ?thesis by simp
  next
    case True
    let ?n = "str_find (snd (chunks ! Suc k)) (element item) 0 (int (length (snd (chunks ! Suc k))))
                + int (length (element item))"
    note mb = move_back_adjacent [OF Cons.prems, of ?n]
    from mb(3) Cons.prems have "Suc k < length (move_back k (Suc k) ?n chunks)" by simp
    from Cons.IH [OF this] mb True show ?thesis by simp
  qed
qed

lemma adjust_loop_indexed:
  assumes "indexed chunks" and "\<forall>k\<in>set ks. Suc k < length chunks"
  shows "\<exists>adjusted. adjust_loop separators ks chunks = Inr adjusted \<and>
           concat (map snd adjusted) = concat (map snd chunks) \<and>
           map fst adjusted = map fst chunks \<and> length adjusted = length chunks"
  using assms
proof (induction ks arbitrary: chunks)
  case Nil
  then show ?case by simp
next
  case (Cons k ks)
  from Cons.prems have k: "Suc k < length chunks" by simp
  from Cons.prems(1) k have "fst (chunks ! k) = k"
    by (metis Suc_lessD add_0 indexed_def nth_map nth_upt)
  then have j: "fst (chunks ! k) + 1 = Suc k" by simp
  let ?c1 = "separator_loop separators k (Suc k) chunks"
  let ?c2 = "tag_loop (extract_html_structure (snd (?c1 ! Suc k))) k (Suc k) ?c1"
  note s = separator_loop_adjacent [OF k, of separators]
  from s k have k1: "Suc k < length ?c1" by simp
  note t = tag_loop_adjacent [OF k1, of "extract_html_structure (snd (?c1 ! Suc k))"]
  from s t have same: "concat (map snd ?c2) = concat (map snd chunks)"
    "map fst ?c2 = map fst chunks" "length ?c2 = length chunks" by simp_all
  from same Cons.prems(1) have "indexed ?c2" by (simp add: indexed_def)
  moreover from same Cons.prems(2) have "\<forall>k\<in>set ks. Suc k < length ?c2" by simp
  ultimately obtain adjusted where
    a: "adjust_loop separators ks ?c2 = Inr adjusted"
       "concat (map snd adjusted) = concat (map snd ?c2)"
       "map fst adjusted = map fst ?c2" "length adjusted = length ?c2"
    using Cons.IH by blast
  have "adjust_loop separators (k # ks) chunks = adjust_loop separators ks ?c2"
    using k j by (simp add: Let_def)
  with a same show ?case by simp
qed

lemma adjust_chunks_indexed:
  assumes "indexed chunks"
  shows "\<exists>adjusted. adjust_chunks separators chunks = Inr adjusted \<and>
           concat (map snd adjusted) = concat (map snd chunks) \<and>
           map fst adjusted = map fst chunks \<and> length adjusted = length chunks"
proof -
  have "\<forall>k\<in>set [0..<length chunks - 1]. Suc k < length chunks" by auto
  from adjust_loop_indexed [OF assms this] show ?thesis by (simp add: adjust_chunks_def)
qed

lemma slice_nat: "slice s (int a) (int b) = drop a (take b s)"
proof -
  have "drop (min (length s) a) (take b s) = drop a (take b s)"
    by (cases "a \<le> length s") (simp_all add: min_def)
  moreover have "take (min (length s) b) s = take b s"
    by (simp add: min_def)
  ultimately show ?thesis by (simp add: slice_def clip_def)
qed

lemma concat_even_slices:
  "concat (map (\<lambda>i. drop (i * c) (take ((i + 1) * c) s)) [0..<n]) = take (n * c) s"
proof (induction n)
  case 0
  then show ?case by simp
next
  case (Suc n)
  have "take (n * c) s @ drop (n * c) (take (n * c + c) s) = take (n * c + c) s"
    by (metis append_take_drop_id le_add1 min.absorb1 take_take)
  with Suc show ?case by (simp add: add.commute)
qed

lemma split_covers:
  assumes "0 < n"
  shows "(m::nat) < n * (m div n + 1)"
proof -
  have "m = n * (m div n) + m mod n" by simp
  moreover have "m mod n < n" using assms by simp
  ultimately have "m < n * (m div n) + n" by linarith
  then show ?thesis by (simp add: algebra_simps)
qed

lemma split_chunks_ok:
  assumes "0 < chunk_max_size"
  shows "\<exists>chunks. split_chunks content chunk_max_size = Inr chunks \<and>
           concat (map snd chunks) = content \<and> indexed chunks"
proof -
  let ?n = "length content div chunk_max_size + 1"
  let ?c = "length content div ?n + 1"
  let ?chunks = "map (\<lambda>i. (i, slice content (int (i * ?c)) (int ((i + 1) * ?c)))) [0..<?n]"
  from assms have "chunk_max_size \<noteq> 0" by simp
  then have "split_chunks content chunk_max_size = Inr ?chunks"
    by (simp only: split_chunks_def Let_def if_False)
  moreover have "map snd ?chunks
      = map (\<lambda>i. drop (i * ?c) (take ((i + 1) * ?c) content)) [0..<?n]"
    by (simp only: map_map comp_def snd_conv slice_nat)
  then have "concat (map snd ?chunks) = take (?n * ?c) content"
    by (simp only: concat_even_slices)
  moreover have "length content < ?n * ?c" by (rule split_covers) simp
  moreover have "indexed ?chunks"
    by (simp only: indexed_def map_map comp_def fst_conv length_map map_ident length_upt diff_zero)
  ultimately show ?thesis by simp
qed

text \<open>
  Claim C3 (chunk conservation). For a positive \<^verbatim>\<open>chunk_max_size\<close>, the even split of a body
  succeeds and its chunk texts, concatenated in order, are the body; \<^verbatim>\<open>adjust_chunks\<close> then
  returns as many chunks, whose texts concatenated in order are again the body, whatever
  the separators are. More generally \<^verbatim>\<open>adjust_chunks\<close> keeps the concatenation of every
  chunk list whose stored indices are the places in the list.
\<close>

theorem chunk_conservation:
  "(0 < chunk_max_size \<longrightarrow>
      (\<exists>chunks adjusted.
          split_chunks content chunk_max_size = Inr chunks \<and>
          concat (map snd chunks) = content \<and>
          adjust_chunks separators chunks = Inr adjusted \<and>
          concat (map snd adjusted) = content \<and>
          length adjusted = length chunks)) \<and>
   (indexed cs \<longrightarrow>
      (\<exists>adjusted. adjust_chunks separators cs = Inr adjusted \<and>
          concat (map snd adjusted) = concat (map snd cs) \<and> length adjusted = length cs))"
proof (intro conjI impI)
  assume "0 < chunk_max_size"
  from split_chunks_ok [OF this] obtain chunks where
    c: "split_chunks content chunk_max_size = Inr chunks" "concat (map snd chunks) = content"
       "indexed chunks" by blast
  from adjust_chunks_indexed [OF c(3)] obtain adjusted where
    "adjust_chunks separators chunks = Inr adjusted"
    "concat (map snd adjusted) = concat (map snd chunks)" "length adjusted = length chunks"
    by blast
  with c show "\<exists>chunks adjusted.
          split_chunks content chunk_max_size = Inr chunks \<and>
          concat (map snd chunks) = content \<and>
          adjust_chunks separators chunks = Inr adjusted \<and>
          concat (map snd adjusted) = content \<and>
          length adjusted = length chunks" by auto
next
  assume "indexed cs"
  from adjust_chunks_indexed [OF this]
  show "\<exists>adjusted. adjust_chunks separators cs = Inr adjusted \<and>
          concat (map snd adjusted) = concat (map snd cs) \<and> length adjusted = length cs"
    by blast
qed

text \<open>
  Two runs: a chunk pair whose boundary moves back to a separator found at the start of the
  next chunk, and the split and adjustment of a small body.
\<close>

theorem chunk_conservation_witness:
  "(0::nat) < 20 \<and>
   indexed [(0, ascii ''aaaaaaa.bb''), (1, ascii ''c.ddddddddddddd'')] \<and>
   adjust_chunks [ascii ''.''] [(0, ascii ''aaaaaaa.bb''), (1, ascii ''c.ddddddddddddd'')]
     = Inr [(0, ascii ''aaaaaaa.bbc.''), (1, ascii ''ddddddddddddd'')] \<and>
   (\<exists>chunks adjusted.
      split_chunks (ascii ''<body><div>Hello world. This is</div><p>a test. Bye</p>'') 20 = Inr chunks \<and>
      concat (map snd chunks) = ascii ''<body><div>Hello world. This is</div><p>a test. Bye</p>'' \<and>
      adjust_chunks [ascii ''.''] chunks = Inr adjusted \<and>
      concat (map snd adjusted) = ascii ''<body><div>Hello world. This is</div><p>a test. Bye</p>'' \<and>
      length adjusted = length chunks) \<and>
   (\<exists>adjusted. adjust_chunks [ascii ''.''] [(0, ascii ''aaaaaaa.bb''), (1, ascii ''c.ddddddddddddd'')]
        = Inr adjusted \<and>
      concat (map snd adjusted)
        = concat (map snd [(0::nat, ascii ''aaaaaaa.bb''), (1, ascii ''c.ddddddddddddd'')]) \<and>
      length adjusted = length [(0, ascii ''aaaaaaa.bb''), (1::nat, ascii ''c.ddddddddddddd'')])"
proof -
  have a: "(0::nat) < 20" by simp
  have b: "indexed [(0, ascii ''aaaaaaa.bb''), (1, ascii ''c.ddddddddddddd'')]"
    by (simp add: indexed_def)
  have c: "adjust_chunks [ascii ''.''] [(0, ascii ''aaaaaaa.bb''), (1, ascii ''c.ddddddddddddd'')]
     = Inr [(0, ascii ''aaaaaaa.bbc.''), (1, ascii ''ddddddddddddd'')]"
    by (simp add: eval_defs)
  note t = chunk_conservation [of 20
      "ascii ''<body><div>Hello world. This is</div><p>a test. Bye</p>''"
      "[ascii ''.'']"
      "[(0, ascii ''aaaaaaa.bb''), (1, ascii ''c.ddddddddddddd'')]"]
  from t [THEN conjunct1, THEN mp, OF a] t [THEN conjunct2, THEN mp, OF b] a b c
  show ?thesis by (intro conjI)
qed

section \<open>Properties of the repetition detector\<close>

lemma counter_add_map_of:
  "map_of (counter_add counts w) v
     = (if v = w then Some (case map_of counts w of None \<Rightarrow> 1 | Some n \<Rightarrow> n + 1)
        else map_of counts v)"
  by (induction counts) auto

lemma counter_add_keys:
  "set (map fst (counter_add counts w)) = insert w (set (map fst counts))"
proof (induction counts)
  case Nil
  then show ?case by simp
next
  case (Cons p counts)
  obtain v n where p: "p = (v, n)" by (cases p)
  show ?case
  proof (cases "v = w")
    case True
    with p show ?thesis by simp
  next
    case False
    with p Cons show ?thesis by (simp add: insert_commute)
  qed
qed

lemma counter_add_distinct:
  "distinct (map fst counts) \<Longrightarrow> distinct (map fst (counter_add counts w))"
proof (induction counts)
  case Nil
  then show ?case by simp
next
  case (Cons p counts)
  obtain v n where p: "p = (v, n)" by (cases p)
  show ?case
  proof (cases "v = w")
    case True
    with Cons.prems p show ?thesis by simp
  next
    case False
    from Cons p have "distinct (map fst (counter_add counts w))" by simp
    moreover from Cons.prems p False have "v \<notin> set (map fst (counter_add counts w))"
      unfolding counter_add_keys by simp
    ultimately show ?thesis using p False by simp
  qed
qed

lemma Counter_snoc: "Counter (ws @ [w]) = counter_add (Counter ws) w"
  by (simp add: Counter_def)

lemma Counter_counts:
  "distinct (map fst (Counter ws)) \<and>
   (\<forall>v. map_of (Counter ws) v = (if v \<in> set ws then Some (count_list ws v) else None))"
proof (induction ws rule: rev_induct)
  case Nil
  then show ?case by (simp add: Counter_def)
next
  case (snoc w ws)
  then have d: "distinct (map fst (Counter ws))"
    and m: "\<And>v. map_of (Counter ws) v = (if v \<in> set ws then Some (count_list ws v) else None)"
    by simp_all
  have "distinct (map fst (Counter (ws @ [w])))"
    unfolding Counter_snoc using d by (rule counter_add_distinct)
  moreover have "map_of (Counter (ws @ [w])) v
      = (if v \<in> set (ws @ [w]) then Some (count_list (ws @ [w]) v) else None)" for v
    unfolding Counter_snoc counter_add_map_of by (simp add: m)
  ultimately show ?case by blast
qed

lemma Counter_entry:
  assumes "(w, n) \<in> set (Counter ws)"
  shows "n = count_list ws w"
proof -
  from Counter_counts [of ws] have d: "distinct (map fst (Counter ws))"
    and m: "map_of (Counter ws) w = (if w \<in> set ws then Some (count_list ws w) else None)"
    by simp_all
  from d assms have "map_of (Counter ws) w = Some n" by simp
  with m show ?thesis by (simp split: if_splits)
qed

lemma count_list_slice_le: "count_list (slice ws a b) w \<le> count_list ws w"
proof -
  have t: "count_list (take n xs) w \<le> count_list xs w" for n and xs :: "'a list"
    using count_list_append [of "take n xs" "drop n xs" w] by simp
  have d: "count_list (drop n xs) w \<le> count_list xs w" for n and xs :: "'a list"
    using count_list_append [of "take n xs" "drop n xs" w] by simp
  show ?thesis unfolding slice_def using t d le_trans by blast
qed

lemma repeated_words_props:
  "distinct (repeated_words words asian window_size i) \<and>
   (\<forall>w\<in>set (repeated_words words asian window_size i).
      (if asian then 35 else 20)
        \<le> count_list (slice words (int i) (int i + int window_size)) w)"
proof -
  let ?c = "Counter (slice words (int i) (int i + int window_size))"
  have "distinct (map fst ?c)" using Counter_counts by blast
  then have "distinct (repeated_words words asian window_size i)"
    unfolding repeated_words_def by (rule distinct_map_filter)
  moreover have "(if asian then 35 else 20)
        \<le> count_list (slice words (int i) (int i + int window_size)) w"
    if "w \<in> set (repeated_words words asian window_size i)" for w
  proof -
    from that obtain n where n: "(w, n) \<in> set ?c" "(if asian then 35 else 20) \<le> n"
      unfolding repeated_words_def by auto
    from n(1) have "n = count_list (slice words (int i) (int i + int window_size)) w"
      by (rule Counter_entry)
    with n(2) show ?thesis by simp
  qed
  ultimately show ?thesis by blast
qed

lemma repeated_words_few:
  assumes "\<forall>w. w \<noteq> w1 \<and> w \<noteq> w2 \<longrightarrow> count_list words w < (if asian then 35 else 20)"
  shows "length (repeated_words words asian window_size i) \<le> 2"
proof -
  let ?r = "repeated_words words asian window_size i"
  have "set ?r \<subseteq> {w1, w2}"
  proof
    fix w assume "w \<in> set ?r"
    with repeated_words_props [of words asian window_size i]
    have "(if asian then 35 else 20)
        \<le> count_list (slice words (int i) (int i + int window_size)) w" by blast
    with count_list_slice_le [of words "int i" "int i + int window_size" w]
    have "\<not> count_list words w < (if asian then 35 else 20)" by simp
    with assms show "w \<in> {w1, w2}" by blast
  qed
  then have "card (set ?r) \<le> card {w1, w2}" by (simp add: card_mono)
  also have "\<dots> \<le> 2" by (simp add: card_insert_if)
  finally have "card (set ?r) \<le> 2" .
  moreover have "distinct ?r" using repeated_words_props by blast
  ultimately show ?thesis by (simp add: distinct_card)
qed

lemma window_loop_quiet:
  assumes "\<forall>w. w \<noteq> w1 \<and> w \<noteq> w2 \<longrightarrow> count_list words w < (if asian then 35 else 20)"
  shows "window_loop words asian window_size starts = []"
proof (induction starts)
  case Nil
  then show ?case by simp
next
  case (Cons i starts)
  from repeated_words_few [OF assms, of window_size i]
  have "\<not> length (repeated_words words asian window_size i) > 2" by simp
  with Cons show ?case by simp
qed

lemma abnormal_repetitions_quiet:
  assumes "2 \<le> window_size"
    and "\<forall>w. w \<noteq> w1 \<and> w \<noteq> w2 \<longrightarrow>
           count_list (word_list isalnum lower s asian) w < (if asian then 35 else 20)"
  shows "abnormal_repetitions isalnum lower s asian window_size = Inr []"
proof -
  from assms(1) have "window_size div 2 \<noteq> 0" by simp
  with window_loop_quiet [OF assms(2)] show ?thesis
    by (simp add: abnormal_repetitions_def Let_def)
qed

lemma replace_loop_absent:
  assumes "x \<in> set old" and "x \<notin> set s"
  shows "replace_loop s old new = s"
  using assms(2)
proof (induction s)
  case Nil
  then show ?case by simp
next
  case (Cons c cs)
  have "\<not> startswith (c # cs) old"
  proof
    assume "startswith (c # cs) old"
    then have "old = take (length old) (c # cs)" by (simp add: startswith_def)
    then have "set old \<subseteq> set (c # cs)" by (metis set_take_subset)
    with assms(1) Cons.prems show False by blast
  qed
  with Cons show ?case by simp
qed

lemma str_replace_absent:
  assumes "x \<in> set old" and "x \<notin> set s"
  shows "str_replace s old new = s"
proof -
  from assms(1) have "old \<noteq> []" by auto
  with replace_loop_absent [OF assms] show ?thesis by (simp add: str_replace_def)
qed

lemma remove_tags_absent: "LT \<notin> set s \<Longrightarrow> remove_tags s = s"
  by (induction s) auto

lemma blank_punctuation_plain:
  "list_all plain s \<Longrightarrow> blank_punctuation ascii_isalnum s = s"
  by (induction s) (auto simp add: blank_punctuation_def plain_def ascii_isalnum_def isspace_def)

lemma ascii_lower_plain: "list_all plain s \<Longrightarrow> ascii_lower s = s"
  by (induction s) (auto simp add: ascii_lower_def plain_def)

lemma collapse_spaces_plain:
  "list_all plain s \<Longrightarrow> list_all plain (collapse_spaces b s)"
  by (induction s arbitrary: b) (auto simp add: plain_def)

lemma split_loop_collapse:
  "(b \<longrightarrow> w = []) \<Longrightarrow> split_loop (collapse_spaces b s) w = split_loop s w"
proof (induction s arbitrary: b w)
  case Nil
  then show ?case by simp
next
  case (Cons c cs)
  have sp: "isspace 32" by (simp add: isspace_def)
  show ?case
  proof (cases "isspace c")
    case True
    have "split_loop (collapse_spaces True cs) [] = split_loop cs []"
      by (rule Cons.IH) simp
    with True Cons.prems sp show ?thesis by simp
  next
    case False
    have "split_loop (collapse_spaces False cs) (w @ [c]) = split_loop cs (w @ [c])"
      by (rule Cons.IH) simp
    with False show ?thesis by simp
  qed
qed

lemma split_loop_spaces:
  "\<forall>c\<in>set t. isspace c \<Longrightarrow> split_loop t w = (if w = [] then [] else [w])"
  by (induction t arbitrary: w) auto

lemma split_loop_trailing:
  "\<forall>c\<in>set t. isspace c \<Longrightarrow> split_loop (s @ t) w = split_loop s w"
  by (induction s arbitrary: w) (auto simp add: split_loop_spaces)

lemma split_words_lstrip: "split_words (lstrip s) = split_words s"
  by (induction s) (auto simp add: split_words_def lstrip_def)

lemma split_words_rstrip: "split_words (rstrip s) = split_words s"
proof -
  have "s = rstrip s @ rev (takeWhile isspace (rev s))"
    unfolding rstrip_def
    by (metis rev_append rev_rev_ident takeWhile_dropWhile_id)
  moreover have "\<forall>c\<in>set (rev (takeWhile isspace (rev s))). isspace c"
    by (auto dest: set_takeWhileD)
  ultimately have "split_loop s [] = split_loop (rstrip s) []"
    using split_loop_trailing [of "rev (takeWhile isspace (rev s))" "rstrip s" "[]"] by simp
  then show ?thesis by (simp add: split_words_def)
qed

lemma split_words_strip: "split_words (strip s) = split_words s"
  by (simp add: strip_def split_words_rstrip split_words_lstrip)

lemma plain_absent: "list_all plain s \<Longrightarrow> \<not> plain x \<Longrightarrow> x \<notin> set s"
  by (auto simp add: list_all_iff)

lemma remove_formatting_plain:
  assumes "list_all plain s"
  shows "remove_formatting s = collapse_spaces False s"
proof -
  note absent = plain_absent [OF assms]
  have n: "\<not> plain 10" "\<not> plain 9" "\<not> plain 13" "\<not> plain 60" by (simp_all add: plain_def)
  have a: "str_replace s [10] [32] = s" by (rule str_replace_absent [of 10]) (simp_all add: absent n)
  have b: "str_replace s [9] [32] = s" by (rule str_replace_absent [of 9]) (simp_all add: absent n)
  have c: "str_replace s [13] [32] = s" by (rule str_replace_absent [of 13]) (simp_all add: absent n)
  let ?r = "collapse_spaces False s"
  have lt: "60 \<notin> set ?r" using plain_absent [OF collapse_spaces_plain [OF assms]] n by simp
  have d: "str_replace ?r (ascii ''> <'') (ascii ''><'') = ?r"
    by (rule str_replace_absent [of 60]) (simp_all add: lt ascii_def)
  have e: "str_replace ?r (ascii '' <br>'') (ascii ''<br>'') = ?r"
    by (rule str_replace_absent [of 60]) (simp_all add: lt ascii_def)
  have f: "str_replace ?r (ascii ''<br> '') (ascii ''<br>'') = ?r"
    by (rule str_replace_absent [of 60]) (simp_all add: lt ascii_def)
  show ?thesis by (simp add: remove_formatting_def Let_def a b c d e f)
qed

lemma word_list_plain:
  assumes "list_all plain s"
  shows "word_list ascii_isalnum ascii_lower s False = split_words s"
proof -
  note absent = plain_absent [OF assms]
  have n: "\<not> plain 38" "\<not> plain 60" by (simp_all add: plain_def)
  have a: "str_replace s (ascii ''&nbsp;'') [32] = s"
    by (rule str_replace_absent [of 38]) (simp_all add: absent n ascii_def)
  have b: "remove_tags s = s"
    by (rule remove_tags_absent) (simp add: absent n LT_def)
  have c: "blank_punctuation ascii_isalnum s = s" using assms by (rule blank_punctuation_plain)
  have d: "remove_formatting s = collapse_spaces False s" using assms by (rule remove_formatting_plain)
  have e: "ascii_lower (collapse_spaces False s) = collapse_spaces False s"
    by (rule ascii_lower_plain [OF collapse_spaces_plain [OF assms]])
  have "split_words (collapse_spaces False s) = split_words s"
    using split_loop_collapse [of False "[]" s] by (simp add: split_words_def)
  then have "split_words (strip (collapse_spaces False s)) = split_words s"
    by (simp only: split_words_strip)
  then show ?thesis by (simp add: word_list_def Let_def a b c d e)
qed

lemma count_list_distinct: "distinct xs \<Longrightarrow> count_list xs w \<le> 1"
  by (induction xs) (auto simp add: count_list_0_iff)

lemma count_list_padded:
  assumes "set as \<subseteq> {a}" and "distinct fill" and "w \<noteq> a"
  shows "count_list (as @ fill) w \<le> 1"
proof -
  from assms(1,3) have "w \<notin> set as" by auto
  then have "count_list as w = 0" by (simp add: count_list_0_iff)
  with count_list_distinct [OF assms(2), of w] show ?thesis by simp
qed

lemma replicate_numeral_Cons: "replicate (numeral k) x = x # replicate (pred_numeral k) x"
  by (simp add: numeral_eq_Suc)

lemma distinct_filler_words: "distinct filler_words"
  by (simp add: filler_words_def ascii_def)

lemma words_sample_25:
  "word_list ascii_isalnum ascii_lower sample_25 False
     = replicate 25 (ascii ''a'') @ take 175 filler_words"
proof -
  have "list_all plain sample_25" by (simp add: sample_25_def ascii_def plain_def)
  then have "word_list ascii_isalnum ascii_lower sample_25 False = split_words sample_25"
    by (rule word_list_plain)
  also have "\<dots> = replicate 25 (ascii ''a'') @ take 175 filler_words"
    by (simp add: sample_25_def ascii_def split_words_def isspace_def filler_words_def
        replicate_numeral_Cons)
  finally show ?thesis .
qed

lemma words_sample_10:
  "word_list ascii_isalnum ascii_lower sample_10 False
     = replicate 10 (ascii ''a'') @ take 190 filler_words"
proof -
  have "list_all plain sample_10" by (simp add: sample_10_def ascii_def plain_def)
  then have "word_list ascii_isalnum ascii_lower sample_10 False = split_words sample_10"
    by (rule word_list_plain)
  also have "\<dots> = replicate 10 (ascii ''a'') @ take 190 filler_words"
    by (simp add: sample_10_def ascii_def split_words_def isspace_def filler_words_def
        replicate_numeral_Cons)
  finally show ?thesis .
qed

lemma counts_padded_filler:
  assumes "w \<noteq> a"
  shows "count_list (replicate n a @ take m filler_words) w \<le> 1"
proof -
  have "set (replicate n a) \<subseteq> {a}" by auto
  moreover have "distinct (take m filler_words)" using distinct_filler_words by (rule distinct_take)
  ultimately show ?thesis using assms by (rule count_list_padded)
qed

lemma count_a_padded_filler:
  "count_list (replicate n (ascii ''a'') @ take m filler_words) (ascii ''a'') = n"
proof -
  have "ascii ''a'' \<notin> set filler_words" by (simp add: filler_words_def ascii_def)
  then have "ascii ''a'' \<notin> set (take m filler_words)" by (meson in_set_takeD)
  then have "count_list (take m filler_words) (ascii ''a'') = 0" by (simp add: count_list_0_iff)
  moreover have "count_list (replicate n x) x = n" for x :: pstr by (induction n) simp_all
  ultimately show ?thesis by simp
qed

lemma words_sample_xyz:
  "word_list ascii_isalnum ascii_lower sample_xyz False = [[120], [121], [122], [120], [121], [122], [120], [121], [122], [120], [121], [122], [120], [121], [122], [120], [121], [122], [120], [121], [122], [120], [121], [122], [120], [121], [122], [120], [121], [122], [120], [121], [122], [120], [121], [122], [120], [121], [122], [120], [121], [122], [120], [121], [122], [120], [121], [122], [120], [121], [122], [120], [121], [122], [120], [121], [122], [120], [121], [122], [120], [121], [122], [120], [121], [122], [120], [121], [122], [120], [121], [122], [120], [121], [122], [120], [121], [122], [120], [121], [122], [120], [121], [122], [120], [121], [122], [120], [121], [122], [120], [121], [122], [120], [121], [122], [120], [121], [122], [120], [121], [122], [120], [121], [122], [120], [121], [122], [120], [121], [122], [120], [121], [122], [120], [121], [122], [120], [121], [122], [120], [121], [122], [120], [121], [122], [120], [121], [122], [120], [121], [122], [120], [121], [122], [120], [121], [122], [120], [121], [122], [120], [121], [122], [120], [121], [122], [120], [121], [122], [120], [121], [122], [120], [121], [122], [120], [121], [122], [120], [121], [122], [120], [121], [122], [120], [121], [122], [120], [121], [122], [120], [121], [122], [120], [121], [122], [120], [121], [122], [120], [121], [122], [120], [121], [122], [120], [121], [122], [120], [121], [122], [120], [121], [122], [120], [121], [122], [120], [121], [122]]"
proof -
  have "list_all plain sample_xyz" by (simp add: sample_xyz_def ascii_def plain_def)
  then have "word_list ascii_isalnum ascii_lower sample_xyz False = split_words sample_xyz"
    by (rule word_list_plain)
  also have "\<dots> = [[120], [121], [122], [120], [121], [122], [120], [121], [122], [120], [121], [122], [120], [121], [122], [120], [121], [122], [120], [121], [122], [120], [121], [122], [120], [121], [122], [120], [121], [122], [120], [121], [122], [120], [121], [122], [120], [121], [122], [120], [121], [122], [120], [121], [122], [120], [121], [122], [120], [121], [122], [120], [121], [122], [120], [121], [122], [120], [121], [122], [120], [121], [122], [120], [121], [122], [120], [121], [122], [120], [121], [122], [120], [121], [122], [120], [121], [122], [120], [121], [122], [120], [121], [122], [120], [121], [122], [120], [121], [122], [120], [121], [122], [120], [121], [122], [120], [121], [122], [120], [121], [122], [120], [121], [122], [120], [121], [122], [120], [121], [122], [120], [121], [122], [120], [121], [122], [120], [121], [122], [120], [121], [122], [120], [121], [122], [120], [121], [122], [120], [121], [122], [120], [121], [122], [120], [121], [122], [120], [121], [122], [120], [121], [122], [120], [121], [122], [120], [121], [122], [120], [121], [122], [120], [121], [122], [120], [121], [122], [120], [121], [122], [120], [121], [122], [120], [121], [122], [120], [121], [122], [120], [121], [122], [120], [121], [122], [120], [121], [122], [120], [121], [122], [120], [121], [122], [120], [121], [122], [120], [121], [122], [120], [121], [122], [120], [121], [122], [120], [121], [122]]"
    by (simp add: sample_xyz_def ascii_def split_words_def isspace_def)
  finally show ?thesis .
qed

lemma flagged_sample_xyz:
  "abnormal_repetitions ascii_isalnum ascii_lower sample_xyz False 200
     = Inr [ascii ''x'', ascii ''y'', ascii ''z'']"
proof -
  have len: "length ([[120], [121], [122], [120], [121], [122], [120], [121], [122], [120], [121], [122], [120], [121], [122], [120], [121], [122], [120], [121], [122], [120], [121], [122], [120], [121], [122], [120], [121], [122], [120], [121], [122], [120], [121], [122], [120], [121], [122], [120], [121], [122], [120], [121], [122], [120], [121], [122], [120], [121], [122], [120], [121], [122], [120], [121], [122], [120], [121], [122], [120], [121], [122], [120], [121], [122], [120], [121], [122], [120], [121], [122], [120], [121], [122], [120], [121], [122], [120], [121], [122], [120], [121], [122], [120], [121], [122], [120], [121], [122], [120], [121], [122], [120], [121], [122], [120], [121], [122], [120], [121], [122], [120], [121], [122], [120], [121], [122], [120], [121], [122], [120], [121], [122], [120], [121], [122], [120], [121], [122], [120], [121], [122], [120], [121], [122], [120], [121], [122], [120], [121], [122], [120], [121], [122], [120], [121], [122], [120], [121], [122], [120], [121], [122], [120], [121], [122], [120], [121], [122], [120], [121], [122], [120], [121], [122], [120], [121], [122], [120], [121], [122], [120], [121], [122], [120], [121], [122], [120], [121], [122], [120], [121], [122], [120], [121], [122], [120], [121], [122], [120], [121], [122], [120], [121], [122], [120], [121], [122], [120], [121], [122], [120], [121], [122], [120], [121], [122], [120], [121], [122]] :: pstr list) = 201"
    by simp
  have starts: "window_starts 201 200 = [0]"
    by (simp add: window_starts_def upt_conv_Cons)
  have rep: "repeated_words [[120], [121], [122], [120], [121], [122], [120], [121], [122], [120], [121], [122], [120], [121], [122], [120], [121], [122], [120], [121], [122], [120], [121], [122], [120], [121], [122], [120], [121], [122], [120], [121], [122], [120], [121], [122], [120], [121], [122], [120], [121], [122], [120], [121], [122], [120], [121], [122], [120], [121], [122], [120], [121], [122], [120], [121], [122], [120], [121], [122], [120], [121], [122], [120], [121], [122], [120], [121], [122], [120], [121], [122], [120], [121], [122], [120], [121], [122], [120], [121], [122], [120], [121], [122], [120], [121], [122], [120], [121], [122], [120], [121], [122], [120], [121], [122], [120], [121], [122], [120], [121], [122], [120], [121], [122], [120], [121], [122], [120], [121], [122], [120], [121], [122], [120], [121], [122], [120], [121], [122], [120], [121], [122], [120], [121], [122], [120], [121], [122], [120], [121], [122], [120], [121], [122], [120], [121], [122], [120], [121], [122], [120], [121], [122], [120], [121], [122], [120], [121], [122], [120], [121], [122], [120], [121], [122], [120], [121], [122], [120], [121], [122], [120], [121], [122], [120], [121], [122], [120], [121], [122], [120], [121], [122], [120], [121], [122], [120], [121], [122], [120], [121], [122], [120], [121], [122], [120], [121], [122], [120], [121], [122], [120], [121], [122], [120], [121], [122], [120], [121], [122]] False 200 0 = [[120], [121], [122]]"
    by (simp add: repeated_words_def Counter_def slice_def clip_def)
  show ?thesis
    unfolding abnormal_repetitions_def Let_def words_sample_xyz len starts
    by (simp add: rep ascii_def)
qed

lemma counter_add_fst:
  "map fst (counter_add counts w)
     = (if w \<in> set (map fst counts) then map fst counts else map fst counts @ [w])"
proof (induction counts)
  case Nil
  then show ?case by simp
next
  case (Cons p counts)
  obtain v n where p: "p = (v, n)" by (cases p)
  show ?case
  proof (cases "v = w")
    case True
    with p show ?thesis by simp
  next
    case False
    with p Cons show ?thesis by auto
  qed
qed

lemma Counter_keys: "map fst (Counter ws) = first_occurrences ws"
proof (induction ws rule: rev_induct)
  case Nil
  then show ?case by (simp add: Counter_def first_occurrences_def)
next
  case (snoc w ws)
  have k: "set (map fst (Counter ws)) = set ws"
    unfolding snoc by (simp add: first_occurrences_def)
  show ?case
    unfolding Counter_snoc counter_add_fst k
    using snoc by (simp add: first_occurrences_def)
qed

lemma repeated_words_frequent:
  "repeated_words words asian window_size i
     = frequent_words (slice words (int i) (int i + int window_size)) (if asian then 35 else 20)"
proof -
  let ?win = "slice words (int i) (int i + int window_size)"
  let ?thr = "if asian then 35 else 20 :: nat"
  have "filter (\<lambda>(word, count). count \<ge> ?thr) (Counter ?win)
      = filter ((\<lambda>w. ?thr \<le> count_list ?win w) \<circ> fst) (Counter ?win)"
  proof (rule filter_cong [OF refl])
    fix p assume "p \<in> set (Counter ?win)"
    then have "snd p = count_list ?win (fst p)"
      using Counter_entry [of "fst p" "snd p" ?win] by simp
    then show "(case p of (word, count) \<Rightarrow> count \<ge> ?thr)
        = ((\<lambda>w. ?thr \<le> count_list ?win w) \<circ> fst) p"
      by (cases p) simp
  qed
  then have "repeated_words words asian window_size i
      = map fst (filter ((\<lambda>w. ?thr \<le> count_list ?win w) \<circ> fst) (Counter ?win))"
    unfolding repeated_words_def by simp
  also have "\<dots> = filter (\<lambda>w. ?thr \<le> count_list ?win w) (map fst (Counter ?win))"
    by (simp only: filter_map)
  finally show ?thesis
    unfolding Counter_keys frequent_words_def .
qed

lemma slice_window_nat:
  "slice words (int i) (int i + int window_size) = take window_size (drop i words)"
proof -
  have "slice words (int i) (int (i + window_size)) = drop i (take (i + window_size) words)"
    by (rule slice_nat)
  then show ?thesis by (simp add: drop_take)
qed

lemma frequent_words_set:
  assumes "0 < threshold"
  shows "set (frequent_words window threshold) = {w. threshold \<le> count_list window w}"
    and "distinct (frequent_words window threshold)"
proof -
  have "w \<in> set window" if "threshold \<le> count_list window w" for w
  proof (rule ccontr)
    assume "w \<notin> set window"
    then have "count_list window w = 0" by (rule count_notin)
    with that assms show False by simp
  qed
  then show "set (frequent_words window threshold) = {w. threshold \<le> count_list window w}"
    by (auto simp add: frequent_words_def first_occurrences_def)
  show "distinct (frequent_words window threshold)"
    by (simp add: frequent_words_def first_occurrences_def)
qed

lemma window_loop_split:
  assumes "window_loop words asian window_size starts \<noteq> []"
  shows "\<exists>pre k post. starts = pre @ k # post \<and>
           (\<forall>j\<in>set pre. length (repeated_words words asian window_size j) \<le> 2) \<and>
           window_loop words asian window_size starts = repeated_words words asian window_size k \<and>
           2 < length (repeated_words words asian window_size k)"
  using assms
proof (induction starts)
  case Nil
  then show ?case by simp
next
  case (Cons i starts)
  show ?case
  proof (cases "2 < length (repeated_words words asian window_size i)")
    case True
    then have "i # starts = [] @ i # starts \<and>
        (\<forall>j\<in>set []. length (repeated_words words asian window_size j) \<le> 2) \<and>
        window_loop words asian window_size (i # starts)
          = repeated_words words asian window_size i \<and>
        2 < length (repeated_words words asian window_size i)"
      by simp
    then show ?thesis by blast
  next
    case False
    with Cons.prems have "window_loop words asian window_size starts \<noteq> []" by simp
    from Cons.IH [OF this] obtain pre k post where
      s: "starts = pre @ k # post"
        "\<forall>j\<in>set pre. length (repeated_words words asian window_size j) \<le> 2"
        "window_loop words asian window_size starts = repeated_words words asian window_size k"
        "2 < length (repeated_words words asian window_size k)"
      by blast
    from s False have "i # starts = (i # pre) @ k # post \<and>
        (\<forall>j\<in>set (i # pre). length (repeated_words words asian window_size j) \<le> 2) \<and>
        window_loop words asian window_size (i # starts)
          = repeated_words words asian window_size k \<and>
        2 < length (repeated_words words asian window_size k)"
      by simp
    then show ?thesis by blast
  qed
qed

lemma window_loop_hit:
  assumes "k \<in> set starts" and "2 < length (repeated_words words asian window_size k)"
  shows "2 < length (window_loop words asian window_size starts)"
  using assms(1)
proof (induction starts)
  case Nil
  then show ?case by simp
next
  case (Cons i starts)
  show ?case
  proof (cases "2 < length (repeated_words words asian window_size i)")
    case True
    then show ?thesis by simp
  next
    case False
    with assms(2) have "k \<noteq> i" by blast
    with Cons have "2 < length (window_loop words asian window_size starts)" by simp
    with False show ?thesis by simp
  qed
qed

lemma window_starts_set:
  "k \<in> set (window_starts n window_size)
     \<longleftrightarrow> k mod (window_size div 2) = 0 \<and> k + window_size \<le> n"
  by (auto simp add: window_starts_def)

lemma window_starts_sorted: "sorted (window_starts n window_size)"
  unfolding window_starts_def by (rule sorted_wrt_filter) simp

lemma before_in_sorted:
  assumes "sorted (pre @ k # post)" and "j \<in> set (pre @ k # post)" and "j < k"
  shows "j \<in> set pre"
proof -
  from assms(1) have "\<forall>x\<in>set (k # post). k \<le> x"
    by (simp add: sorted_append)
  with assms(3) have "j \<notin> set (k # post)" by auto
  with assms(2) show ?thesis by simp
qed

lemma three_in_distinct:
  assumes "distinct r" and "a \<in> set r" "b \<in> set r" "c \<in> set r"
    and "a \<noteq> b" "a \<noteq> c" "b \<noteq> c"
  shows "2 < length r"
proof -
  have "card {a, b, c} \<le> card (set r)"
    by (rule card_mono) (use assms in auto)
  moreover have "card {a, b, c} = 3" using assms(5-7) by simp
  moreover have "card (set r) = length r" using assms(1) by (rule distinct_card)
  ultimately show ?thesis by simp
qed

lemma abnormal_repetitions_returns:
  assumes "2 \<le> window_size"
  shows "abnormal_repetitions isalnum lower s asian window_size
     = Inr (window_loop (word_list isalnum lower s asian) asian window_size
              (window_starts (length (word_list isalnum lower s asian)) window_size))"
proof -
  from assms have "window_size div 2 \<noteq> 0" by simp
  then show ?thesis by (simp add: abnormal_repetitions_def Let_def)
qed

lemma abnormal_repetitions_hit:
  assumes "2 \<le> window_size"
    and "i mod (window_size div 2) = 0"
    and "i + window_size \<le> length (word_list isalnum lower s asian)"
    and "a \<noteq> b" "a \<noteq> c" "b \<noteq> c"
    and "(if asian then 35 else 20)
           \<le> count_list (take window_size (drop i (word_list isalnum lower s asian))) a"
    and "(if asian then 35 else 20)
           \<le> count_list (take window_size (drop i (word_list isalnum lower s asian))) b"
    and "(if asian then 35 else 20)
           \<le> count_list (take window_size (drop i (word_list isalnum lower s asian))) c"
  shows "\<exists>r. abnormal_repetitions isalnum lower s asian window_size = Inr r \<and> 2 < length r"
proof -
  let ?words = "word_list isalnum lower s asian"
  let ?thr = "if asian then 35 else 20 :: nat"
  let ?win = "take window_size (drop i ?words)"
  have thr: "0 < ?thr" by simp
  have rw: "repeated_words ?words asian window_size i = frequent_words ?win ?thr"
    unfolding repeated_words_frequent slice_window_nat ..
  have "a \<in> set (frequent_words ?win ?thr)" "b \<in> set (frequent_words ?win ?thr)"
    "c \<in> set (frequent_words ?win ?thr)"
    unfolding frequent_words_set(1) [OF thr] using assms(7-9) by simp_all
  with frequent_words_set(2) [OF thr] have "2 < length (frequent_words ?win ?thr)"
    using assms(4-6) by (rule three_in_distinct)
  then have "2 < length (repeated_words ?words asian window_size i)"
    unfolding rw .
  moreover have "i \<in> set (window_starts (length ?words) window_size)"
    unfolding window_starts_set using assms(2,3) by simp
  ultimately have "2 < length (window_loop ?words asian window_size
      (window_starts (length ?words) window_size))"
    by (rule window_loop_hit [rotated])
  with abnormal_repetitions_returns [OF assms(1)] show ?thesis by simp
qed

lemma abnormal_repetitions_first:
  assumes "abnormal_repetitions isalnum lower s asian window_size = Inr r" and "r \<noteq> []"
  shows "2 < length r \<and> distinct r \<and>
         (\<exists>k. k + window_size \<le> length (word_list isalnum lower s asian) \<and>
            k mod (window_size div 2) = 0 \<and>
            r = frequent_words (take window_size (drop k (word_list isalnum lower s asian)))
                  (if asian then 35 else 20) \<and>
            (\<forall>w. w \<in> set r \<longleftrightarrow> (if asian then 35 else 20)
               \<le> count_list (take window_size (drop k (word_list isalnum lower s asian))) w) \<and>
            (\<forall>j. j < k \<and> j mod (window_size div 2) = 0 \<longrightarrow>
               length (frequent_words
                         (take window_size (drop j (word_list isalnum lower s asian)))
                         (if asian then 35 else 20)) \<le> 2))"
proof -
  let ?words = "word_list isalnum lower s asian"
  let ?thr = "if asian then 35 else 20 :: nat"
  let ?starts = "window_starts (length ?words) window_size"
  have thr: "0 < ?thr" by simp
  have rw: "repeated_words ?words asian window_size j
      = frequent_words (take window_size (drop j ?words)) ?thr" for j
    unfolding repeated_words_frequent slice_window_nat ..
  from assms have r: "r = window_loop ?words asian window_size ?starts"
    by (simp add: abnormal_repetitions_def Let_def split: if_splits)
  with assms(2) window_loop_split [of ?words asian window_size ?starts]
  obtain pre k post where
    s: "?starts = pre @ k # post"
      "\<forall>j\<in>set pre. length (repeated_words ?words asian window_size j) \<le> 2"
      "r = repeated_words ?words asian window_size k"
      "2 < length r"
    by auto
  have "k \<in> set ?starts" unfolding s(1) by simp
  then have range: "k mod (window_size div 2) = 0" "k + window_size \<le> length ?words"
    unfolding window_starts_set by simp_all
  have fw: "r = frequent_words (take window_size (drop k ?words)) ?thr"
    using s(3) rw by simp
  have d: "distinct r" unfolding fw by (rule frequent_words_set(2) [OF thr])
  have m: "\<forall>w. w \<in> set r \<longleftrightarrow> ?thr \<le> count_list (take window_size (drop k ?words)) w"
    unfolding fw frequent_words_set(1) [OF thr] by simp
  have e: "length (frequent_words (take window_size (drop j ?words)) ?thr) \<le> 2"
    if "j < k \<and> j mod (window_size div 2) = 0" for j
  proof -
    from that range(2) have "j \<in> set ?starts"
      unfolding window_starts_set by simp
    then have "j \<in> set (pre @ k # post)" unfolding s(1) .
    moreover have "sorted (pre @ k # post)"
      using window_starts_sorted [of "length ?words" window_size] unfolding s(1) .
    ultimately have "j \<in> set pre" using that by (auto intro: before_in_sorted)
    with s(2) show ?thesis unfolding rw by blast
  qed
  from e have e': "\<forall>j. j < k \<and> j mod (window_size div 2) = 0 \<longrightarrow>
      length (frequent_words (take window_size (drop j ?words)) ?thr) \<le> 2"
    by blast
  have "k + window_size \<le> length ?words \<and> k mod (window_size div 2) = 0 \<and>
      r = frequent_words (take window_size (drop k ?words)) ?thr \<and>
      (\<forall>w. w \<in> set r \<longleftrightarrow> ?thr \<le> count_list (take window_size (drop k ?words)) w) \<and>
      (\<forall>j. j < k \<and> j mod (window_size div 2) = 0 \<longrightarrow>
         length (frequent_words (take window_size (drop j ?words)) ?thr) \<le> 2)"
    using range fw m e' by (intro conjI)
  then have "\<exists>k. k + window_size \<le> length ?words \<and> k mod (window_size div 2) = 0 \<and>
      r = frequent_words (take window_size (drop k ?words)) ?thr \<and>
      (\<forall>w. w \<in> set r \<longleftrightarrow> ?thr \<le> count_list (take window_size (drop k ?words)) w) \<and>
      (\<forall>j. j < k \<and> j mod (window_size div 2) = 0 \<longrightarrow>
         length (frequent_words (take window_size (drop j ?words)) ?thr) \<le> 2)"
    by (rule exI)
  with s(4) d show ?thesis by (intro conjI)
qed

text \<open>
  Claim C5 (repetition detector), as the code has it. The threshold is 20 occurrences, 35
  for the scripts without spaces. The examined windows start at the multiples of half the
  window size and lie inside the word list. With a window of at least two words the
  detector returns a list. It returns more than two words when some examined window holds
  three different words that each reach the threshold in it. It returns the empty list when
  at most two words reach the threshold in the whole word list, however often those words
  are repeated. And when it returns a non-empty list, that list holds more than two
  different words and is the list of the repeated words of the first examined window that
  has more than two of them: exactly the words that reach the threshold in that window. So
  one single word repeated 25 times does not make the detector flag a text, and neither does
  the word repeated 10 times.
\<close>

theorem repetition_detector:
  "(2 \<le> window_size \<longrightarrow>
      (\<exists>r. abnormal_repetitions isalnum lower s asian window_size = Inr r)) \<and>
   (2 \<le> window_size \<and> i mod (window_size div 2) = 0 \<and>
    i + window_size \<le> length (word_list isalnum lower s asian) \<and>
    a \<noteq> b \<and> a \<noteq> c \<and> b \<noteq> c \<and>
    (if asian then 35 else 20)
      \<le> count_list (take window_size (drop i (word_list isalnum lower s asian))) a \<and>
    (if asian then 35 else 20)
      \<le> count_list (take window_size (drop i (word_list isalnum lower s asian))) b \<and>
    (if asian then 35 else 20)
      \<le> count_list (take window_size (drop i (word_list isalnum lower s asian))) c \<longrightarrow>
      (\<exists>r. abnormal_repetitions isalnum lower s asian window_size = Inr r \<and> 2 < length r)) \<and>
   (2 \<le> window_size \<and>
    (\<forall>w. w \<noteq> w1 \<and> w \<noteq> w2 \<longrightarrow>
       count_list (word_list isalnum lower s asian) w < (if asian then 35 else 20)) \<longrightarrow>
      abnormal_repetitions isalnum lower s asian window_size = Inr []) \<and>
   (abnormal_repetitions isalnum lower s asian window_size = Inr r \<and> r \<noteq> [] \<longrightarrow>
      2 < length r \<and> distinct r \<and>
      (\<exists>k. k + window_size \<le> length (word_list isalnum lower s asian) \<and>
         k mod (window_size div 2) = 0 \<and>
         r = frequent_words (take window_size (drop k (word_list isalnum lower s asian)))
               (if asian then 35 else 20) \<and>
         (\<forall>w. w \<in> set r \<longleftrightarrow> (if asian then 35 else 20)
            \<le> count_list (take window_size (drop k (word_list isalnum lower s asian))) w) \<and>
         (\<forall>j. j < k \<and> j mod (window_size div 2) = 0 \<longrightarrow>
            length (frequent_words
                      (take window_size (drop j (word_list isalnum lower s asian)))
                      (if asian then 35 else 20)) \<le> 2)))"
proof (intro conjI)
  show "2 \<le> window_size \<longrightarrow>
      (\<exists>r. abnormal_repetitions isalnum lower s asian window_size = Inr r)"
    using abnormal_repetitions_returns [of window_size isalnum lower s asian] by blast
next
  show "2 \<le> window_size \<and> i mod (window_size div 2) = 0 \<and>
    i + window_size \<le> length (word_list isalnum lower s asian) \<and>
    a \<noteq> b \<and> a \<noteq> c \<and> b \<noteq> c \<and>
    (if asian then 35 else 20)
      \<le> count_list (take window_size (drop i (word_list isalnum lower s asian))) a \<and>
    (if asian then 35 else 20)
      \<le> count_list (take window_size (drop i (word_list isalnum lower s asian))) b \<and>
    (if asian then 35 else 20)
      \<le> count_list (take window_size (drop i (word_list isalnum lower s asian))) c \<longrightarrow>
      (\<exists>r. abnormal_repetitions isalnum lower s asian window_size = Inr r \<and> 2 < length r)"
  proof (rule impI)
    assume h: "2 \<le> window_size \<and> i mod (window_size div 2) = 0 \<and>
      i + window_size \<le> length (word_list isalnum lower s asian) \<and>
      a \<noteq> b \<and> a \<noteq> c \<and> b \<noteq> c \<and>
      (if asian then 35 else 20)
        \<le> count_list (take window_size (drop i (word_list isalnum lower s asian))) a \<and>
      (if asian then 35 else 20)
        \<le> count_list (take window_size (drop i (word_list isalnum lower s asian))) b \<and>
      (if asian then 35 else 20)
        \<le> count_list (take window_size (drop i (word_list isalnum lower s asian))) c"
    show "\<exists>r. abnormal_repetitions isalnum lower s asian window_size = Inr r \<and> 2 < length r"
      by (rule abnormal_repetitions_hit [of window_size i isalnum lower s asian a b c])
         (use h in blast)+
  qed
next
  show "2 \<le> window_size \<and>
    (\<forall>w. w \<noteq> w1 \<and> w \<noteq> w2 \<longrightarrow>
       count_list (word_list isalnum lower s asian) w < (if asian then 35 else 20)) \<longrightarrow>
      abnormal_repetitions isalnum lower s asian window_size = Inr []"
  proof (rule impI)
    assume "2 \<le> window_size \<and>
      (\<forall>w. w \<noteq> w1 \<and> w \<noteq> w2 \<longrightarrow>
         count_list (word_list isalnum lower s asian) w < (if asian then 35 else 20))"
    then have "2 \<le> window_size" and "\<forall>w. w \<noteq> w1 \<and> w \<noteq> w2 \<longrightarrow>
         count_list (word_list isalnum lower s asian) w < (if asian then 35 else 20)"
      by simp_all
    then show "abnormal_repetitions isalnum lower s asian window_size = Inr []"
      by (rule abnormal_repetitions_quiet)
  qed
next
  show "abnormal_repetitions isalnum lower s asian window_size = Inr r \<and> r \<noteq> [] \<longrightarrow>
      2 < length r \<and> distinct r \<and>
      (\<exists>k. k + window_size \<le> length (word_list isalnum lower s asian) \<and>
         k mod (window_size div 2) = 0 \<and>
         r = frequent_words (take window_size (drop k (word_list isalnum lower s asian)))
               (if asian then 35 else 20) \<and>
         (\<forall>w. w \<in> set r \<longleftrightarrow> (if asian then 35 else 20)
            \<le> count_list (take window_size (drop k (word_list isalnum lower s asian))) w) \<and>
         (\<forall>j. j < k \<and> j mod (window_size div 2) = 0 \<longrightarrow>
            length (frequent_words
                      (take window_size (drop j (word_list isalnum lower s asian)))
                      (if asian then 35 else 20)) \<le> 2))"
  proof (rule impI)
    assume "abnormal_repetitions isalnum lower s asian window_size = Inr r \<and> r \<noteq> []"
    then have "abnormal_repetitions isalnum lower s asian window_size = Inr r" and "r \<noteq> []"
      by simp_all
    then show "2 < length r \<and> distinct r \<and>
      (\<exists>k. k + window_size \<le> length (word_list isalnum lower s asian) \<and>
         k mod (window_size div 2) = 0 \<and>
         r = frequent_words (take window_size (drop k (word_list isalnum lower s asian)))
               (if asian then 35 else 20) \<and>
         (\<forall>w. w \<in> set r \<longleftrightarrow> (if asian then 35 else 20)
            \<le> count_list (take window_size (drop k (word_list isalnum lower s asian))) w) \<and>
         (\<forall>j. j < k \<and> j mod (window_size div 2) = 0 \<longrightarrow>
            length (frequent_words
                      (take window_size (drop j (word_list isalnum lower s asian)))
                      (if asian then 35 else 20)) \<le> 2))"
      by (rule abnormal_repetitions_first)
  qed
qed

text \<open>
  Runs with windows of 200 words: the sample in which \<^verbatim>\<open>a\<close> occurs 10 times is not flagged;
  the sample that repeats \<^verbatim>\<open>x y z\<close> has three words that occur 67 times each in the first
  window, and it is flagged with these three words.
\<close>

theorem repetition_detector_witness:
  "length (word_list ascii_isalnum ascii_lower sample_10 False) = 200 \<and>
   count_list (word_list ascii_isalnum ascii_lower sample_10 False) (ascii ''a'') = 10 \<and>
   abnormal_repetitions ascii_isalnum ascii_lower sample_10 False 200 = Inr [] \<and>
   (\<exists>r. abnormal_repetitions ascii_isalnum ascii_lower sample_10 False 200 = Inr r) \<and>
   count_list (take 200 (drop 0 (word_list ascii_isalnum ascii_lower sample_xyz False)))
     (ascii ''x'') = 67 \<and>
   (\<exists>r. abnormal_repetitions ascii_isalnum ascii_lower sample_xyz False 200 = Inr r \<and>
        2 < length r) \<and>
   abnormal_repetitions ascii_isalnum ascii_lower sample_xyz False 200
     = Inr [ascii ''x'', ascii ''y'', ascii ''z''] \<and>
   (\<exists>k. [ascii ''x'', ascii ''y'', ascii ''z'']
          = frequent_words
              (take 200 (drop k (word_list ascii_isalnum ascii_lower sample_xyz False))) 20)"
proof -
  have len: "length (word_list ascii_isalnum ascii_lower sample_10 False) = 200"
    unfolding words_sample_10 by (simp add: filler_words_def)
  have cnt: "count_list (word_list ascii_isalnum ascii_lower sample_10 False) (ascii ''a'') = 10"
    unfolding words_sample_10 by (rule count_a_padded_filler)
  have few: "\<forall>w. w \<noteq> [97] \<and> w \<noteq> [97] \<longrightarrow>
      count_list (word_list ascii_isalnum ascii_lower sample_10 False) w
        < (if False then 35 else 20)"
  proof (intro allI impI)
    fix w :: pstr assume "w \<noteq> [97] \<and> w \<noteq> [97]"
    then have "w \<noteq> ascii ''a''" by (simp add: ascii_def)
    from counts_padded_filler [OF this]
    have "count_list (word_list ascii_isalnum ascii_lower sample_10 False) w \<le> 1"
      unfolding words_sample_10 .
    then show "count_list (word_list ascii_isalnum ascii_lower sample_10 False) w
        < (if False then 35 else 20)"
      by simp
  qed
  have two: "(2::nat) \<le> 200" by simp
  note t = repetition_detector [of 200 ascii_isalnum ascii_lower sample_10 False
      0 "[]" "[]" "[]" "[97]" "[97]" "[]"]
  note t0 = t [THEN conjunct1, THEN mp, OF two]
  note t1 = t [THEN conjunct2, THEN conjunct2, THEN conjunct1, THEN mp, OF conjI, OF two few]
  have cx: "count_list (take 200 (drop 0 (word_list ascii_isalnum ascii_lower sample_xyz False)))
      (ascii ''x'') = 67"
    unfolding words_sample_xyz by (simp add: ascii_def)
  have cy: "count_list (take 200 (drop 0 (word_list ascii_isalnum ascii_lower sample_xyz False)))
      (ascii ''y'') = 67"
    unfolding words_sample_xyz by (simp add: ascii_def)
  have cz: "count_list (take 200 (drop 0 (word_list ascii_isalnum ascii_lower sample_xyz False)))
      (ascii ''z'') = 66"
    unfolding words_sample_xyz by (simp add: ascii_def)
  have ln: "0 + 200 \<le> length (word_list ascii_isalnum ascii_lower sample_xyz False)"
    unfolding words_sample_xyz by simp
  have hyp: "2 \<le> (200::nat) \<and> (0::nat) mod (200 div 2) = 0 \<and>
    0 + 200 \<le> length (word_list ascii_isalnum ascii_lower sample_xyz False) \<and>
    ascii ''x'' \<noteq> ascii ''y'' \<and> ascii ''x'' \<noteq> ascii ''z'' \<and> ascii ''y'' \<noteq> ascii ''z'' \<and>
    (if False then 35 else 20)
      \<le> count_list (take 200 (drop 0 (word_list ascii_isalnum ascii_lower sample_xyz False)))
           (ascii ''x'') \<and>
    (if False then 35 else 20)
      \<le> count_list (take 200 (drop 0 (word_list ascii_isalnum ascii_lower sample_xyz False)))
           (ascii ''y'') \<and>
    (if False then 35 else 20)
      \<le> count_list (take 200 (drop 0 (word_list ascii_isalnum ascii_lower sample_xyz False)))
           (ascii ''z'')"
    unfolding cx cy cz using ln by (simp add: ascii_def)
  note u = repetition_detector [of 200 ascii_isalnum ascii_lower sample_xyz False
      0 "ascii ''x''" "ascii ''y''" "ascii ''z''" "[]" "[]"
      "[ascii ''x'', ascii ''y'', ascii ''z'']"]
  note u1 = u [THEN conjunct2, THEN conjunct1, THEN mp, OF hyp]
  have ne: "[ascii ''x'', ascii ''y'', ascii ''z''] \<noteq> []" by simp
  note u2 = u [THEN conjunct2, THEN conjunct2, THEN conjunct2, THEN mp, OF conjI,
      OF flagged_sample_xyz ne]
  from u2 have "\<exists>k. [ascii ''x'', ascii ''y'', ascii ''z'']
          = frequent_words
              (take 200 (drop k (word_list ascii_isalnum ascii_lower sample_xyz False)))
              (if False then 35 else 20)"
    by blast
  then have u3: "\<exists>k. [ascii ''x'', ascii ''y'', ascii ''z'']
          = frequent_words
              (take 200 (drop k (word_list ascii_isalnum ascii_lower sample_xyz False))) 20"
    by simp
  from len cnt t1 t0 cx u1 flagged_sample_xyz u3 show ?thesis by (intro conjI)
qed

text \<open>
  Claim C5 as stated fails: the first sample has 200 words, among them the word \<^verbatim>\<open>a\<close> 25
  times and no other word twice, and the detector returns the empty list.
\<close>

theorem repetition_detector_counterexample:
  "length (word_list ascii_isalnum ascii_lower sample_25 False) = 200 \<and>
   count_list (word_list ascii_isalnum ascii_lower sample_25 False) (ascii ''a'') = 25 \<and>
   abnormal_repetitions ascii_isalnum ascii_lower sample_25 False 200 = Inr []"
proof -
  have len: "length (word_list ascii_isalnum ascii_lower sample_25 False) = 200"
    unfolding words_sample_25 by (simp add: filler_words_def)
  have cnt: "count_list (word_list ascii_isalnum ascii_lower sample_25 False) (ascii ''a'') = 25"
    unfolding words_sample_25 by (rule count_a_padded_filler)
  have few: "\<forall>w. w \<noteq> [97] \<and> w \<noteq> [97] \<longrightarrow>
      count_list (word_list ascii_isalnum ascii_lower sample_25 False) w
        < (if False then 35 else 20)"
  proof (intro allI impI)
    fix w :: pstr assume "w \<noteq> [97] \<and> w \<noteq> [97]"
    then have "w \<noteq> ascii ''a''" by (simp add: ascii_def)
    from counts_padded_filler [OF this]
    have "count_list (word_list ascii_isalnum ascii_lower sample_25 False) w \<le> 1"
      unfolding words_sample_25 .
    then show "count_list (word_list ascii_isalnum ascii_lower sample_25 False) w
        < (if False then 35 else 20)"
      by simp
  qed
  have "(2::nat) \<le> 200" by simp
  from this few have "abnormal_repetitions ascii_isalnum ascii_lower sample_25 False 200 = Inr []"
    by (rule abnormal_repetitions_quiet)
  with len cnt show ?thesis by (intro conjI)
qed

section \<open>Properties of the checkpoint\<close>

lemma old_path_differs: "json_file @ ascii ''.old'' \<noteq> json_file"
  by (simp add: ascii_def)

text \<open>
  Claim C1 (checkpoint supersession), as the code has it. Replacing the checkpoint goes
  through three states of the file system. After the first the checkpoint path holds no
  file; after the second it holds an empty file; after the third it holds the complete new
  checkpoint, which has been written to the checkpoint path itself and not to a side file.
  In all three states the path with the suffix \<^verbatim>\<open>.old\<close> holds the previous checkpoint, if
  there was one, and otherwise what it held before; no other path changes.
\<close>

theorem checkpoint_supersession:
  "length (save_final_state fs json_file d) = 3 \<and>
   (save_final_state fs json_file d ! 0) json_file = None \<and>
   (save_final_state fs json_file d ! 1) json_file = Some [] \<and>
   (save_final_state fs json_file d ! 2) json_file
     = Some [Dump (d\<lparr>sd_chunks := sd_chunks d @ [ChunkEnd]\<rparr>)] \<and>
   (\<forall>s \<in> set (save_final_state fs json_file d).
      s (json_file @ ascii ''.old'')
        = (if fs json_file \<noteq> None then fs json_file else fs (json_file @ ascii ''.old'')) \<and>
      (\<forall>path. path \<noteq> json_file \<longrightarrow> path \<noteq> json_file @ ascii ''.old'' \<longrightarrow> s path = fs path))"
  using old_path_differs [of json_file]
  by (simp add: save_final_state_def Let_def rename_file_def open_for_writing_def write_piece_def)

text \<open>The three states on a file system with a checkpoint.\<close>

theorem checkpoint_supersession_witness:
  "checkpointed_files (ascii ''out/a.json'') = Some [Dump sample_checkpoint] \<and>
   (save_final_state checkpointed_files (ascii ''out/a.json'') sample_update ! 0)
      (ascii ''out/a.json'') = None \<and>
   (save_final_state checkpointed_files (ascii ''out/a.json'') sample_update ! 0)
      (ascii ''out/a.json.old'') = Some [Dump sample_checkpoint] \<and>
   (save_final_state checkpointed_files (ascii ''out/a.json'') sample_update ! 1)
      (ascii ''out/a.json'') = Some [] \<and>
   (save_final_state checkpointed_files (ascii ''out/a.json'') sample_update ! 1)
      (ascii ''out/a.json.old'') = Some [Dump sample_checkpoint] \<and>
   (save_final_state checkpointed_files (ascii ''out/a.json'') sample_update ! 2)
      (ascii ''out/a.json'')
     = Some [Dump (sample_update\<lparr>sd_chunks := sd_chunks sample_update @ [ChunkEnd]\<rparr>)] \<and>
   (save_final_state checkpointed_files (ascii ''out/a.json'') sample_update ! 2)
      (ascii ''out/a.json.old'') = Some [Dump sample_checkpoint] \<and>
   (save_final_state checkpointed_files (ascii ''out/a.json'') sample_update ! 2)
      (ascii ''out/a.txt'') = None"
proof -
  note t = checkpoint_supersession [of checkpointed_files "ascii ''out/a.json''" sample_update]
  have a: "checkpointed_files (ascii ''out/a.json'') = Some [Dump sample_checkpoint]"
    by (simp add: checkpointed_files_def)
  have old: "ascii ''out/a.json'' @ ascii ''.old'' = ascii ''out/a.json.old''"
    by (simp add: ascii_def)
  have len: "length (save_final_state checkpointed_files (ascii ''out/a.json'') sample_update) = 3"
    by (rule t [THEN conjunct1])
  have t1: "(save_final_state checkpointed_files (ascii ''out/a.json'') sample_update ! 0)
      (ascii ''out/a.json'') = None"
    by (rule t [THEN conjunct2, THEN conjunct1])
  have t2: "(save_final_state checkpointed_files (ascii ''out/a.json'') sample_update ! 1)
      (ascii ''out/a.json'') = Some []"
    by (rule t [THEN conjunct2, THEN conjunct2, THEN conjunct1])
  have t3: "(save_final_state checkpointed_files (ascii ''out/a.json'') sample_update ! 2)
      (ascii ''out/a.json'')
     = Some [Dump (sample_update\<lparr>sd_chunks := sd_chunks sample_update @ [ChunkEnd]\<rparr>)]"
    by (rule t [THEN conjunct2, THEN conjunct2, THEN conjunct2, THEN conjunct1])
  note t4 = t [THEN conjunct2, THEN conjunct2, THEN conjunct2, THEN conjunct2]
  have kept: "(save_final_state checkpointed_files (ascii ''out/a.json'') sample_update ! i)
      (ascii ''out/a.json.old'') = Some [Dump sample_checkpoint]"
    and other: "(save_final_state checkpointed_files (ascii ''out/a.json'') sample_update ! i)
      (ascii ''out/a.txt'') = checkpointed_files (ascii ''out/a.txt'')"
    if "i < 3" for i
  proof -
    from that len
    have "save_final_state checkpointed_files (ascii ''out/a.json'') sample_update ! i
        \<in> set (save_final_state checkpointed_files (ascii ''out/a.json'') sample_update)"
      by simp
    from t4 [THEN bspec, OF this]
    have k: "(save_final_state checkpointed_files (ascii ''out/a.json'') sample_update ! i)
          (ascii ''out/a.json'' @ ascii ''.old'')
        = (if checkpointed_files (ascii ''out/a.json'') \<noteq> None
           then checkpointed_files (ascii ''out/a.json'')
           else checkpointed_files (ascii ''out/a.json'' @ ascii ''.old''))"
      and o: "\<forall>path. path \<noteq> ascii ''out/a.json'' \<longrightarrow>
           path \<noteq> ascii ''out/a.json'' @ ascii ''.old'' \<longrightarrow>
           (save_final_state checkpointed_files (ascii ''out/a.json'') sample_update ! i) path
             = checkpointed_files path"
      by (rule conjunct1, rule conjunct2)
    from k show "(save_final_state checkpointed_files (ascii ''out/a.json'') sample_update ! i)
      (ascii ''out/a.json.old'') = Some [Dump sample_checkpoint]"
      unfolding old a by simp
    have "ascii ''out/a.txt'' \<noteq> ascii ''out/a.json''"
      "ascii ''out/a.txt'' \<noteq> ascii ''out/a.json'' @ ascii ''.old''"
      by (simp_all add: ascii_def)
    with o show "(save_final_state checkpointed_files (ascii ''out/a.json'') sample_update ! i)
      (ascii ''out/a.txt'') = checkpointed_files (ascii ''out/a.txt'')"
      by blast
  qed
  have c: "checkpointed_files (ascii ''out/a.txt'') = None"
    by (simp add: checkpointed_files_def no_files_def ascii_def)
  have k0: "(save_final_state checkpointed_files (ascii ''out/a.json'') sample_update ! 0)
      (ascii ''out/a.json.old'') = Some [Dump sample_checkpoint]" by (rule kept) simp
  have k1: "(save_final_state checkpointed_files (ascii ''out/a.json'') sample_update ! 1)
      (ascii ''out/a.json.old'') = Some [Dump sample_checkpoint]" by (rule kept) simp
  have k2: "(save_final_state checkpointed_files (ascii ''out/a.json'') sample_update ! 2)
      (ascii ''out/a.json.old'') = Some [Dump sample_checkpoint]" by (rule kept) simp
  have o2: "(save_final_state checkpointed_files (ascii ''out/a.json'') sample_update ! 2)
      (ascii ''out/a.txt'') = None" using other [of 2] c by simp
  from a t1 k0 t2 k1 t3 k2 o2 show ?thesis by (intro conjI)
qed

text \<open>
  Claim C1 as stated fails: where a reader found a complete checkpoint before, it finds no
  file at the checkpoint path after the rename, and after the file is opened for writing a
  file that \<^verbatim>\<open>json.load\<close> cannot parse.
\<close>

theorem checkpoint_reader_counterexample:
  "json_load checkpointed_files (ascii ''out/a.json'') = Inr sample_checkpoint \<and>
   (save_final_state checkpointed_files (ascii ''out/a.json'') sample_update ! 0)
      (ascii ''out/a.json'') = None \<and>
   json_load (save_final_state checkpointed_files (ascii ''out/a.json'') sample_update ! 1)
      (ascii ''out/a.json'') = Inl (OtherError (ascii ''JSONDecodeError''))"
  by (simp add: json_load_def save_final_state_def Let_def rename_file_def open_for_writing_def
      write_piece_def checkpointed_files_def no_files_def)

section \<open>Properties of the chunk translation state machine\<close>










lemma structure_sample_body:
  "extract_html_structure sample_body =
     [Token (ascii ''<body>'') True 6, Token (ascii ''<div>'') True 11, Token (ascii ''<a>'') True 14,
      Token (ascii ''Site'') False 18, Token (ascii ''</a>'') True 22, Token (ascii ''</div>'') True 28,
      Token (ascii ''<p>'') True 31, Token (ascii ''one'') False 34, Token (ascii ''</p>'') True 38,
      Token (ascii ''<p>'') True 41, Token (ascii ''two'') False 44, Token (ascii ''</p>'') True 48]"
  by (simp add: eval_defs)














section \<open>Fatal errors of the Generator\<close>

lemma stop_is_not_stuck:
  "ascii ''!Stop!'' \<noteq> ascii ''Stuck in a loop with LLM''"
  "ascii ''!Stop!'' \<noteq> ascii ''Empty Answer''"
  by (simp_all add: ascii_def)

lemma fatal_reply_raises_stop:
  "r = Fails RateLimited \<or> r = Fails InvalidRequest \<Longrightarrow>
   create_translation_message r = Inl (RuntimeError (ascii ''!Stop!''))"
  by (auto simp add: create_translation_message_def)

lemma says_stop_stuck: "\<not> says_stop (RuntimeError (ascii ''Stuck in a loop with LLM''))"
  by (simp add: says_stop_def eval_defs)

lemma says_stop_stop: "says_stop (RuntimeError (ascii ''!Stop!''))"
  by (simp add: says_stop_def eval_defs)

lemma start_part_fresh:
  assumes "multiplier e \<noteq> 0"
  shows "\<exists>v. start_part e hebrew_context
               ((initial_vars e previous problematic)\<lparr>chunk_end_position := n\<rparr>) = Inr v
             \<and> conversation v = None \<and> chunk_translation v = [] \<and> warning_message v = []"
proof (cases "previous = []")
  case True
  then show ?thesis by (simp add: start_part_def initial_vars_def Let_def)
next
  case False
  with assms show ?thesis by (simp add: start_part_def initial_vars_def Let_def)
qed

text \<open>
  The first attempt on a document without checkpoint, when the Generator fails fatally: the
  error arrives as \<^verbatim>\<open>RuntimeError("!Stop!")\<close>, is handled as a retryable one, and the next
  attempt finds its conversation unchanged.
\<close>

lemma fatal_first_attempt:
  assumes retries: "1 < max_retries e"
    and fresh: "files w (destination_path @ ascii ''.json'') = None"
    and fatal: "r = Fails RateLimited \<or> r = Fails InvalidRequest"
    and start: "conversation v = None" "chunk_translation v = []" "warning_message v = []"
  shows "attempt_loop e chunk hebrew_context destination_path html_structure problematic
           new_model 0 v w (r # replies)
     = (Raised (RuntimeError (ascii ''Stuck in a loop with LLM'')),
        \<lparr>files = files w,
         requests = requests w @
           [\<lparr>rq_system_text = system_text_of e new_model hebrew_context (snd chunk),
             rq_prompt = prompt v @ constant_instruction new_model,
             rq_assistant_answer = assistant_answer v,
             rq_max_tokens = max_tokens v,
             rq_temperature = attempt_temperature e problematic 0,
             rq_use_cache = use_cache v,
             rq_new_model = new_model\<rparr>]\<rparr>)"
proof -
  have h: "handle_exception e (destination_path @ ascii ''.json'') 0
             (RuntimeError (ascii ''!Stop!'')) None v' fs
           = Inr (v'\<lparr>warning_message := []\<rparr>)"
    if "warning_message v' = []" for v' fs
    using retries that
    by (simp add: handle_exception_def stop_is_not_stuck last_attempt_warning_def)
  have s: "handle_exception e (destination_path @ ascii ''.json'') (Suc 0)
             (RuntimeError (ascii ''Stuck in a loop with LLM'')) None v' (files w)
           = Inl (Raised (RuntimeError (ascii ''Stuck in a loop with LLM'')))"
    if "chunk_translation v' = []" for v'
    using that fresh by (simp add: handle_exception_def recover_def)
  show ?thesis
  proof (cases replies)
    case Nil
    then show ?thesis
      using retries start
      by (simp add: try_reply_def fatal_reply_raises_stop [OF fatal] h s)
  next
    case (Cons r' rest)
    then show ?thesis
      using retries start
      by (simp add: try_reply_def fatal_reply_raises_stop [OF fatal] h s)
  qed
qed

text \<open>
  Claim C2, as the code has it. On a document without checkpoint, with at least two retries
  configured, a fatal error of the Generator on the first request of a chunk does not end the
  run. No second request is sent for the chunk and the files are left as they were, but the
  call ends in the error \<^verbatim>\<open>Stuck in a loop with LLM\<close>; the run takes it for the failure of one
  document, counts it, and goes on with the next document while the count of failures is at
  most the larger of 4 and an eighth of the documents processed.
\<close>

theorem fatal_error_continues:
  assumes "1 < max_retries e"
    and "overlap_parting e \<noteq> 0"
    and "multiplier e \<noteq> 0"
    and "files w (destination_path @ ascii ''.json'') = None"
    and "r = Fails RateLimited \<or> r = Fails InvalidRequest"
  shows "fst (translate_chunk e chunk previous hebrew_context destination_path html_structure
                problematic new_model w (r # replies))
           = Raised (RuntimeError (ascii ''Stuck in a loop with LLM'')) \<and>
         length (requests (snd (translate_chunk e chunk previous hebrew_context destination_path
                html_structure problematic new_model w (r # replies))))
           = length (requests w) + 1 \<and>
         files (snd (translate_chunk e chunk previous hebrew_context destination_path
                html_structure problematic new_model w (r # replies))) = files w \<and>
         after_file_failure (RuntimeError (ascii ''Stuck in a loop with LLM'')) error_count
             files_processed
           = (if error_count + 1 > max (files_processed div 8) 4
              then TooManyErrors (error_count + 1) else NextFile (error_count + 1))"
proof -
  have retries: "max_retries e \<noteq> 0" using assms(1) by simp
  from start_part_fresh [OF assms(3)] obtain v where
    sp: "start_part e hebrew_context
           ((initial_vars e previous problematic)
              \<lparr>chunk_end_position := length (extract_html_structure (snd chunk))\<rparr>) = Inr v"
    and v: "conversation v = None" "chunk_translation v = []" "warning_message v = []"
    by blast
  have run: "translate_chunk e chunk previous hebrew_context destination_path html_structure
                problematic new_model w (r # replies)
      = attempt_loop e chunk hebrew_context destination_path html_structure problematic
           new_model 0 v w (r # replies)"
    using assms(2,4) retries sp
    by (simp add: translate_chunk_def enter_loop_def Let_def del: attempt_loop.simps)
  note first = fatal_first_attempt [OF assms(1) assms(4) assms(5) v,
      of chunk hebrew_context html_structure problematic new_model replies]
  have a: "fst (translate_chunk e chunk previous hebrew_context destination_path html_structure
                problematic new_model w (r # replies))
           = Raised (RuntimeError (ascii ''Stuck in a loop with LLM''))"
    unfolding run first by simp
  have b: "length (requests (snd (translate_chunk e chunk previous hebrew_context destination_path
                html_structure problematic new_model w (r # replies))))
           = length (requests w) + 1"
    unfolding run first by simp
  have c: "files (snd (translate_chunk e chunk previous hebrew_context destination_path
                html_structure problematic new_model w (r # replies))) = files w"
    unfolding run first by simp
  have d: "after_file_failure (RuntimeError (ascii ''Stuck in a loop with LLM'')) error_count
             files_processed
           = (if error_count + 1 > max (files_processed div 8) 4
              then TooManyErrors (error_count + 1) else NextFile (error_count + 1))"
    by (simp add: after_file_failure_def says_stop_stuck)
  from a b c d show ?thesis by (intro conjI)
qed

text \<open>
  The sample configuration has three retries and no recovery. The Generator fails with a
  rate-limit error on the first request for the first document of a run: the chunk ends in
  the stall error after this one request, and the run goes on with the next document.
\<close>

theorem fatal_error_continues_witness:
  "1 < max_retries sample_env \<and>
   fst (translate_chunk sample_env (0, sample_body) [] [] (ascii ''out/a'')
          (extract_html_structure sample_body) False True
          \<lparr>files = no_files, requests = []\<rparr> [Fails RateLimited, Answers second_reply])
     = Raised (RuntimeError (ascii ''Stuck in a loop with LLM'')) \<and>
   length (requests (snd (translate_chunk sample_env (0, sample_body) [] [] (ascii ''out/a'')
          (extract_html_structure sample_body) False True
          \<lparr>files = no_files, requests = []\<rparr> [Fails RateLimited, Answers second_reply])))
     = 1 \<and>
   after_file_failure (RuntimeError (ascii ''Stuck in a loop with LLM'')) 0 0 = NextFile 1"
proof -
  have h: "1 < max_retries sample_env" "overlap_parting sample_env \<noteq> 0"
    "multiplier sample_env \<noteq> 0"
    "files \<lparr>files = no_files, requests = []\<rparr> (ascii ''out/a'' @ ascii ''.json'') = None"
    "Fails RateLimited = Fails RateLimited \<or> Fails RateLimited = Fails InvalidRequest"
    by (simp_all add: sample_env_def no_files_def)
  note t = fatal_error_continues [OF h, of "(0, sample_body)" "[]" "[]"
      "extract_html_structure sample_body" False True "[Answers second_reply]" 0 0]
  have a: "fst (translate_chunk sample_env (0, sample_body) [] [] (ascii ''out/a'')
          (extract_html_structure sample_body) False True
          \<lparr>files = no_files, requests = []\<rparr> [Fails RateLimited, Answers second_reply])
     = Raised (RuntimeError (ascii ''Stuck in a loop with LLM''))"
    by (rule t [THEN conjunct1])
  have b: "length (requests (snd (translate_chunk sample_env (0, sample_body) [] [] (ascii ''out/a'')
          (extract_html_structure sample_body) False True
          \<lparr>files = no_files, requests = []\<rparr> [Fails RateLimited, Answers second_reply])))
     = 1"
    using t [THEN conjunct2, THEN conjunct1] by simp
  have c: "after_file_failure (RuntimeError (ascii ''Stuck in a loop with LLM'')) 0 0 = NextFile 1"
    using t [THEN conjunct2, THEN conjunct2, THEN conjunct2] by simp
  from h(1) a b c show ?thesis by (intro conjI)
qed

text \<open>
  With a single retry the same error is handled at the last attempt and leaves the chunk as
  \<^verbatim>\<open>RuntimeError("!Stop!")\<close>, which ends the run.
\<close>

lemma fatal_error_single_retry:
  assumes "max_retries e = 1"
    and "overlap_parting e \<noteq> 0"
    and "multiplier e \<noteq> 0"
    and "files w (destination_path @ ascii ''.json'') = None"
    and "r = Fails RateLimited \<or> r = Fails InvalidRequest"
  shows "fst (translate_chunk e chunk previous hebrew_context destination_path html_structure
                problematic new_model w (r # replies))
           = Raised (RuntimeError (ascii ''!Stop!''))"
    and "after_file_failure (RuntimeError (ascii ''!Stop!'')) error_count files_processed
           = RunAborted (RuntimeError (ascii ''!Stop!''))"
proof -
  from start_part_fresh [OF assms(3)] obtain v where
    sp: "start_part e hebrew_context
           ((initial_vars e previous problematic)
              \<lparr>chunk_end_position := length (extract_html_structure (snd chunk))\<rparr>) = Inr v"
    and v: "conversation v = None" "chunk_translation v = []"
    by blast
  have h: "handle_exception e (destination_path @ ascii ''.json'') 0
             (RuntimeError (ascii ''!Stop!'')) None v' (files w)
           = Inl (Raised (RuntimeError (ascii ''!Stop!'')))"
    if "chunk_translation v' = []" for v'
    using assms(1,4) that by (simp add: handle_exception_def recover_def)
  show "fst (translate_chunk e chunk previous hebrew_context destination_path html_structure
                problematic new_model w (r # replies))
           = Raised (RuntimeError (ascii ''!Stop!''))"
    using assms(1,2,4) sp v
    by (simp add: translate_chunk_def enter_loop_def Let_def try_reply_def
        fatal_reply_raises_stop [OF assms(5)] h)
  show "after_file_failure (RuntimeError (ascii ''!Stop!'')) error_count files_processed
           = RunAborted (RuntimeError (ascii ''!Stop!''))"
    by (simp add: after_file_failure_def says_stop_stop)
qed

text \<open>
  With recovery on, the fatal error on the second request of a chunk puts the degraded
  fragment in the place of the chunk.
\<close>

lemma fatal_error_degraded_example:
  "fst (translate_chunk (sample_env\<lparr>recovery_mode := True\<rparr>) (0, sample_body) [] []
          (ascii ''out/a'') (extract_html_structure sample_body) False True
          \<lparr>files = no_files, requests = []\<rparr> [Answers first_reply, Fails RateLimited])
     = Returned (degraded_fragment (sample_env\<lparr>recovery_mode := True\<rparr>)
                  (ascii ''<body><div><a>Site</a></div><p>un</p>'')) True"
  unfolding structure_sample_body
  by (simp add: eval_defs)

end
